theory Spec2Isabelle
  imports Main "HOL-Library.Sublist"
begin

unbundle bit_operations_syntax

section \<open>The data model of \<open>src/dag-map.js\<close>\<close>

text \<open>
  A vertex object of the source: \<open>{idx, key, val, out, flag, length}\<close> together with its
  array part \<open>w[0] .. w[length - 1]\<close>, the indices of the vertices that precede it. The array
  part and its \<open>length\<close> are the list \<open>incoming\<close> (the name \<open>pushIncoming\<close> gives them).
  \<open>val\<close> is \<open>None\<close> for the JavaScript value \<open>undefined\<close>.
  Keys are strings; the empty string is the falsy key that \<open>!key\<close> rejects.
\<close>

record 'v vertex =
  idx :: nat
  key :: string
  val :: "'v option"
  out :: bool
  flag :: bool
  incoming :: "nat list"

text \<open>
  \<open>IntStack\<close>: \<open>push\<close> writes at \<open>length\<close>, \<open>pop\<close> reads at \<open>length - 1\<close>. The model keeps the
  stack as a list with the top at the head, so position \<open>i\<close> of the source is
  \<open>rev st ! i\<close>. Indices stay far below \<open>2^31\<close>, where \<open>n | 0\<close> is the identity, and
  \<open>~n\<close> is \<open>NOT n = - n - 1\<close> on \<open>int\<close>.
\<close>

type_synonym IntStack = "int list"

text \<open>
  The class \<open>Vertices\<close>: the array part \<open>this[0] .. this[length - 1]\<close> is \<open>verts\<close>, and
  the three scratch stacks. A vertex reference held by the source (\<open>v\<close>, \<open>w\<close>, \<open>start\<close>) is
  modelled by the position of that object in \<open>verts\<close>.
\<close>

record 'v vertices =
  verts :: "'v vertex list"
  stack :: IntStack
  path :: IntStack
  result :: IntStack

text \<open>
  \<open>Error msg\<close> is \<open>new Error(msg)\<close>. \<open>TypeError\<close> is what JavaScript throws on reading a
  property of \<open>undefined\<close>, here after \<open>this[i]\<close> with \<open>i\<close> out of range. \<open>EmptyPop\<close> marks
  \<open>pop\<close> on an empty \<open>IntStack\<close>, which in the source drives \<open>length\<close> to \<open>-1\<close>, a state that
  the lists of this model do not have; the model stops there.
\<close>

datatype error = Error string | TypeError | EmptyPop

type_synonym ('a, 'v) res = "(error + 'a) \<times> 'v vertices"

text \<open>The \<open>before\<close> and \<open>after\<close> arguments of \<open>DAG.add\<close>: omitted, one key, or an array of keys.\<close>

datatype keys = Absent | Single string | Many "string list"

section \<open>The class \<open>Vertices\<close>\<close>

definition new_Vertices :: "'v vertices" where
  "new_Vertices = \<lparr>verts = [], stack = [], path = [], result = []\<rparr>"

text \<open>The scan of \<open>Vertices.add\<close>: the first position whose vertex has the key.\<close>

primrec lookup :: "string \<Rightarrow> 'v vertex list \<Rightarrow> nat option" where
  "lookup k [] = None"
| "lookup k (x # xs) = (if key x = k then Some 0 else map_option Suc (lookup k xs))"

definition Vertices_add :: "string \<Rightarrow> 'v vertices \<Rightarrow> (nat, 'v) res" where
  "Vertices_add k s =
     (if k = [] then (Inl (Error ''missing key''), s)
      else case lookup k (verts s) of
        Some i \<Rightarrow> (Inr i, s)
      | None \<Rightarrow>
          let l = length (verts s) in
          (Inr l, s\<lparr>verts := verts s @
             [\<lparr>idx = l, key = k, val = None, out = False, flag = False, incoming = []\<rparr>]\<rparr>))"

definition reset :: "'v vertices \<Rightarrow> 'v vertices" where
  "reset s = s\<lparr>stack := [], path := [], result := [],
               verts := map (\<lambda>x. x\<lparr>flag := False\<rparr>) (verts s)\<rparr>"

text \<open>
  \<open>pushIncoming\<close>: the loop runs from the last listed index down to the first; the
  recursion below is given the list already reversed.
\<close>

fun pushIncoming_loop :: "'v vertex list \<Rightarrow> nat list \<Rightarrow> IntStack \<Rightarrow> error option \<times> IntStack" where
  "pushIncoming_loop vs [] st = (None, st)"
| "pushIncoming_loop vs (index # rest) st =
     (if length vs \<le> index then (Some TypeError, st)
      else pushIncoming_loop vs rest (if flag (vs ! index) then st else int index # st))"

definition pushIncoming :: "'v vertex \<Rightarrow> 'v vertices \<Rightarrow> (unit, 'v) res" where
  "pushIncoming incomming s =
     (case pushIncoming_loop (verts s) (rev (incoming incomming)) (stack s) of
        (Some e, st) \<Rightarrow> (Inl e, s\<lparr>stack := st\<rparr>)
      | (None, st) \<Rightarrow> (Inr (), s\<lparr>stack := st\<rparr>))"

text \<open>
  One pass through the body of the \<open>while\<close> loop of \<open>visit\<close>, after \<open>index\<close> has been
  popped: the loop goes on, is left by \<open>break\<close>, or an error is thrown.
\<close>

datatype 'v step = Continue "'v vertices" | Break "'v vertices" | Throw error "'v vertices"

definition visit_body :: "string \<Rightarrow> int \<Rightarrow> 'v vertices \<Rightarrow> 'v step" where
  "visit_body search index s =
     (if 0 \<le> index then
        (if length (verts s) \<le> nat index then Throw TypeError s
         else
           let vertex = verts s ! nat index in
           if flag vertex then Continue s
           else
             let s1 = s\<lparr>verts := (verts s)[nat index := vertex\<lparr>flag := True\<rparr>],
                        path := index # path s\<rparr> in
             if search = key vertex then Break s1
             else
               (case pushIncoming vertex (s1\<lparr>stack := NOT index # stack s1\<rparr>) of
                  (Inl e, s2) \<Rightarrow> Throw e s2
                | (Inr _, s2) \<Rightarrow> Continue s2))
      else
        (case path s of
           [] \<Rightarrow> Throw EmptyPop s
         | _ # p \<Rightarrow> Continue (s\<lparr>path := p, result := NOT index # result s\<rparr>)))"

definition unflagged :: "'v vertices \<Rightarrow> nat" where
  "unflagged s = length (filter (\<lambda>x. \<not> flag x) (verts s))"

lemma pushIncoming_verts:
  "pushIncoming x s = (r, s') \<Longrightarrow>
     verts s' = verts s \<and> path s' = path s \<and> result s' = result s"
  by (auto simp: pushIncoming_def split: prod.splits option.splits)

lemma unflagged_update:
  assumes "i < length vs" and "\<not> flag (vs ! i)"
  shows "length (filter (\<lambda>x. \<not> flag x) (vs[i := (vs ! i)\<lparr>flag := True\<rparr>]))
         < length (filter (\<lambda>x. \<not> flag x) vs)"
  using assms
proof (induction vs arbitrary: i)
  case Nil
  then show ?case by simp
next
  case (Cons a vs)
  show ?case
  proof (cases i)
    case 0
    with Cons.prems show ?thesis
      by (simp add: le_imp_less_Suc)
  next
    case (Suc j)
    with Cons.prems have "j < length vs" and "\<not> flag (vs ! j)"
      by simp_all
    from Cons.IH [OF this] Suc show ?thesis
      by simp
  qed
qed

lemma visit_body_decreases:
  assumes "visit_body search index (s\<lparr>stack := st\<rparr>) = Continue s'"
  shows "unflagged s' < unflagged s \<or> (unflagged s' = unflagged s \<and> length (stack s') \<le> length st)"
proof (cases "0 \<le> index")
  case neg: False
  with assms show ?thesis
    by (auto simp: visit_body_def unflagged_def split: list.splits)
next
  case True
  show ?thesis
  proof (cases "flag (verts s ! nat index)")
    case True
    with assms \<open>0 \<le> index\<close> show ?thesis
      by (auto simp: visit_body_def unflagged_def Let_def split: if_splits)
  next
    case False
    with assms \<open>0 \<le> index\<close> have r: "nat index < length (verts s)"
      and v: "verts s' = (verts s)[nat index := (verts s ! nat index)\<lparr>flag := True\<rparr>]"
      by (auto simp: visit_body_def Let_def split: if_splits prod.splits sum.splits
            dest!: pushIncoming_verts)
    show ?thesis
      using unflagged_update [OF r False] by (simp add: unflagged_def v)
  qed
qed

text \<open>
  The \<open>while (stack.length)\<close> loop of \<open>visit\<close>. Every pass either flags a vertex that was
  not flagged or leaves the flags alone and shortens the stack, so the loop always ends.
\<close>

function visit_loop :: "string \<Rightarrow> 'v vertices \<Rightarrow> (unit, 'v) res" where
  "visit_loop search s =
     (case stack s of
        [] \<Rightarrow> (Inr (), s)
      | index # st \<Rightarrow>
          (case visit_body search index (s\<lparr>stack := st\<rparr>) of
             Continue s' \<Rightarrow> visit_loop search s'
           | Break s' \<Rightarrow> (Inr (), s')
           | Throw e s' \<Rightarrow> (Inl e, s')))"
  by pat_completeness auto
termination
proof (relation "measures [\<lambda>(search, s). unflagged s, \<lambda>(search, s). length (stack s)]")
  show "wf (measures [\<lambda>(search, s :: 'v vertices). unflagged s, \<lambda>(search, s). length (stack s)])"
    by simp
next
  fix search :: string and s :: "'v vertices" and index st s'
  assume "stack s = index # st" and "visit_body search index (s\<lparr>stack := st\<rparr>) = Continue s'"
  then show "((search, s'), (search, s))
      \<in> measures [\<lambda>(search, s). unflagged s, \<lambda>(search, s). length (stack s)]"
    using visit_body_decreases [where search = search and index = index and s = s and st = st] by auto
qed

text \<open>\<open>visit(start, search)\<close>: \<open>stack.push(start.idx)\<close>, then the loop.\<close>

definition visit :: "nat \<Rightarrow> string \<Rightarrow> 'v vertices \<Rightarrow> (unit, 'v) res" where
  "visit start search s =
     visit_loop search (s\<lparr>stack := int (idx (verts s ! start)) # stack s\<rparr>)"

text \<open>
  \<open>each(indices, cb)\<close>: the calls of \<open>cb\<close>, in order, as the list of their argument pairs.
  The source reads \<open>indices\<close> from position 0, the bottom of the stack. The callback is
  taken to return normally and to leave the store alone.
\<close>

fun each_loop :: "'v vertex list \<Rightarrow> int list \<Rightarrow> error + (string \<times> 'v option) list" where
  "each_loop vs [] = Inr []"
| "each_loop vs (i # rest) =
     (if i < 0 \<or> length vs \<le> nat i then Inl TypeError
      else case each_loop vs rest of
        Inl e \<Rightarrow> Inl e
      | Inr calls \<Rightarrow> Inr ((key (vs ! nat i), val (vs ! nat i)) # calls))"

definition Vertices_each :: "IntStack \<Rightarrow> 'v vertices \<Rightarrow> error + (string \<times> 'v option) list" where
  "Vertices_each indices s = each_loop (verts s) (rev indices)"

text \<open>The message that \<open>check\<close> builds from the keys the \<open>each\<close> callback receives.\<close>

definition chain_msg :: "string \<Rightarrow> string list \<Rightarrow> string" where
  "chain_msg w ks = ''cycle detected: '' @ w @ concat (map (\<lambda>k. '' <- '' @ k) ks)"

text \<open>The shallow check of \<open>check\<close>: the keys of the vertices listed by \<open>v\<close> itself.\<close>

fun shallow :: "'v vertex list \<Rightarrow> string \<Rightarrow> string \<Rightarrow> nat list \<Rightarrow> error option" where
  "shallow vs vkey w [] = None"
| "shallow vs vkey w (p # ps) =
     (if length vs \<le> p then Some TypeError
      else if key (vs ! p) = w then Some (Error (chain_msg w [vkey, w]))
      else shallow vs vkey w ps)"

text \<open>
  \<open>check(v, w)\<close>: the self match, the quick check \<open>v.length === 0\<close>, the shallow check and
  the deep check, in the order of the source. \<open>v\<close> is the position of the vertex object and
  \<open>w\<close> is a key.
\<close>

definition check :: "nat \<Rightarrow> string \<Rightarrow> 'v vertices \<Rightarrow> (unit, 'v) res" where
  "check v w s =
     (if key (verts s ! v) = w then (Inl (Error (chain_msg w [w])), s)
      else if incoming (verts s ! v) = [] then (Inr (), s)
      else case shallow (verts s) (key (verts s ! v)) w (incoming (verts s ! v)) of
        Some e \<Rightarrow> (Inl e, s)
      | None \<Rightarrow>
          (case visit v w (reset s) of
             (Inl e, s') \<Rightarrow> (Inl e, s')
           | (Inr _, s') \<Rightarrow>
               if path s' \<noteq> [] then
                 (case Vertices_each (path s') s' of
                    Inl e \<Rightarrow> (Inl e, s')
                  | Inr calls \<Rightarrow> (Inl (Error (chain_msg w (map fst calls))), s'))
               else (Inr (), s')))"

text \<open>
  \<open>addEdge(v, w)\<close>, with the two vertex objects given by their positions: after \<open>check\<close>
  has returned, \<open>v.idx\<close> is appended to the list of \<open>w\<close> unless it is there, and then
  \<open>v.out\<close> is set.
\<close>

definition addEdge :: "nat \<Rightarrow> nat \<Rightarrow> 'v vertices \<Rightarrow> (unit, 'v) res" where
  "addEdge v w s =
     (case check v (key (verts s ! w)) s of
        (Inl e, s') \<Rightarrow> (Inl e, s')
      | (Inr _, s') \<Rightarrow>
          let wv = verts s' ! w; vi = idx (verts s' ! v) in
          if vi \<in> set (incoming wv) then (Inr (), s')
          else
            let vs1 = (verts s')[w := wv\<lparr>incoming := incoming wv @ [vi]\<rparr>];
                vs2 = vs1[v := (vs1 ! v)\<lparr>out := True\<rparr>]
            in (Inr (), s'\<lparr>verts := vs2\<rparr>))"

text \<open>The \<open>for\<close> loop of \<open>walk\<close> over the positions \<open>0 .. length - 1\<close>.\<close>

fun walk_loop :: "nat list \<Rightarrow> 'v vertices \<Rightarrow> (unit, 'v) res" where
  "walk_loop [] s = (Inr (), s)"
| "walk_loop (i # rest) s =
     (if out (verts s ! i) then walk_loop rest s
      else case visit i [] s of
        (Inl e, s') \<Rightarrow> (Inl e, s')
      | (Inr _, s') \<Rightarrow> walk_loop rest s')"

definition walk :: "'v vertices \<Rightarrow> ((string \<times> 'v option) list, 'v) res" where
  "walk s =
     (case walk_loop [0 ..< length (verts s)] (reset s) of
        (Inl e, s') \<Rightarrow> (Inl e, s')
      | (Inr _, s') \<Rightarrow>
          (case Vertices_each (result s') s' of
             Inl e \<Rightarrow> (Inl e, s')
           | Inr calls \<Rightarrow> (Inr calls, s')))"

section \<open>The class \<open>DAG\<close>\<close>

text \<open>\<open>vertices.addEdge(v, vertices.add(b))\<close> and \<open>vertices.addEdge(vertices.add(a), v)\<close>.\<close>

definition edge_before :: "nat \<Rightarrow> string \<Rightarrow> 'v vertices \<Rightarrow> (unit, 'v) res" where
  "edge_before v b s =
     (case Vertices_add b s of
        (Inl e, s1) \<Rightarrow> (Inl e, s1)
      | (Inr w, s1) \<Rightarrow> addEdge v w s1)"

definition edge_after :: "nat \<Rightarrow> string \<Rightarrow> 'v vertices \<Rightarrow> (unit, 'v) res" where
  "edge_after v a s =
     (case Vertices_add a s of
        (Inl e, s1) \<Rightarrow> (Inl e, s1)
      | (Inr w, s1) \<Rightarrow> addEdge w v s1)"

fun edges_loop :: "(string \<Rightarrow> 'v vertices \<Rightarrow> (unit, 'v) res) \<Rightarrow> string list \<Rightarrow> 'v vertices
    \<Rightarrow> (unit, 'v) res" where
  "edges_loop f [] s = (Inr (), s)"
| "edges_loop f (b # bs) s =
     (case f b s of
        (Inl e, s1) \<Rightarrow> (Inl e, s1)
      | (Inr _, s1) \<Rightarrow> edges_loop f bs s1)"

text \<open>
  \<open>if (before) { if (typeof before === "string") ... else for ... }\<close>: an omitted argument
  and the empty string are falsy; an array, also the empty one, is truthy.
\<close>

definition constraints :: "(string \<Rightarrow> 'v vertices \<Rightarrow> (unit, 'v) res) \<Rightarrow> keys \<Rightarrow> 'v vertices
    \<Rightarrow> (unit, 'v) res" where
  "constraints f ks s =
     (case ks of
        Absent \<Rightarrow> (Inr (), s)
      | Single b \<Rightarrow> if b = [] then (Inr (), s) else f b s
      | Many bs \<Rightarrow> edges_loop f bs s)"

text \<open>
  \<open>DAG.add(key, value, before, after)\<close>. The value \<open>None\<close> stands for an omitted or
  \<open>undefined\<close> second argument.
\<close>

definition DAG_add :: "string \<Rightarrow> 'v option \<Rightarrow> keys \<Rightarrow> keys \<Rightarrow> 'v vertices \<Rightarrow> (unit, 'v) res" where
  "DAG_add k v before after s =
     (if k = [] then (Inl (Error ''argument `key` is required''), s)
      else case Vertices_add k s of
        (Inl e, s0) \<Rightarrow> (Inl e, s0)
      | (Inr i, s0) \<Rightarrow>
          let s1 = s0\<lparr>verts := (verts s0)[i := (verts s0 ! i)\<lparr>val := v\<rparr>]\<rparr> in
          (case constraints (edge_before i) before s1 of
             (Inl e, s2) \<Rightarrow> (Inl e, s2)
           | (Inr _, s2) \<Rightarrow> constraints (edge_after i) after s2))"

definition DAG_each :: "'v vertices \<Rightarrow> ((string \<times> 'v option) list, 'v) res" where
  "DAG_each s = walk s"

section \<open>Stores that a caller can build\<close>

text \<open>
  A caller's session: calls of \<open>add\<close> and \<open>each\<close> in any order. A call that throws leaves
  the store as it was at the moment of the throw, and the caller goes on using it.
\<close>

datatype 'v call = Add string "'v option" keys keys | Each

fun run :: "'v call list \<Rightarrow> 'v vertices \<Rightarrow> 'v vertices" where
  "run [] s = s"
| "run (Add k v b a # cs) s = run cs (snd (DAG_add k v b a s))"
| "run (Each # cs) s = run cs (snd (DAG_each s))"

definition build :: "'v call list \<Rightarrow> 'v vertices" where
  "build cs = run cs new_Vertices"

section \<open>Notions used to state the properties\<close>

text \<open>What a vertex keeps through every operation but the assignment of \<open>val\<close>.\<close>

definition unflag :: "'v vertex \<Rightarrow> 'v vertex" where
  "unflag x = x\<lparr>flag := False\<rparr>"

text \<open>
  \<open>grows s s'\<close>: every vertex of \<open>s\<close> is still there in \<open>s'\<close>, at the same position, with the
  same \<open>idx\<close>, key and value; the predecessors it had are still listed first, in the same
  order, and \<open>out\<close> is not taken back.
\<close>

definition grows :: "'v vertices \<Rightarrow> 'v vertices \<Rightarrow> bool" where
  "grows s s' \<longleftrightarrow>
     length (verts s) \<le> length (verts s') \<and>
     (\<forall>i < length (verts s).
        idx (verts s' ! i) = idx (verts s ! i) \<and>
        key (verts s' ! i) = key (verts s ! i) \<and>
        val (verts s' ! i) = val (verts s ! i) \<and>
        prefix (incoming (verts s ! i)) (incoming (verts s' ! i)) \<and>
        (out (verts s ! i) \<longrightarrow> out (verts s' ! i)))"

text \<open>The store right after \<open>v.val = value\<close> in \<open>DAG.add\<close>.\<close>

definition assigned :: "string \<Rightarrow> 'v option \<Rightarrow> 'v vertices \<Rightarrow> 'v vertices" where
  "assigned k v s =
     (case Vertices_add k s of
        (Inr i, s0) \<Rightarrow> s0\<lparr>verts := (verts s0)[i := (verts s0 ! i)\<lparr>val := v\<rparr>]\<rparr>
      | (Inl e, s0) \<Rightarrow> s0)"

text \<open>
  \<open>keeps K s s'\<close>: as \<open>grows\<close>, but the vertices whose key is in \<open>K\<close> may have a new value.
\<close>

definition keeps :: "string set \<Rightarrow> 'v vertices \<Rightarrow> 'v vertices \<Rightarrow> bool" where
  "keeps K s s' \<longleftrightarrow>
     length (verts s) \<le> length (verts s') \<and>
     (\<forall>i < length (verts s).
        idx (verts s' ! i) = idx (verts s ! i) \<and>
        key (verts s' ! i) = key (verts s ! i) \<and>
        (key (verts s ! i) \<notin> K \<longrightarrow> val (verts s' ! i) = val (verts s ! i)) \<and>
        prefix (incoming (verts s ! i)) (incoming (verts s' ! i)) \<and>
        (out (verts s ! i) \<longrightarrow> out (verts s' ! i)))"

definition store_a :: "nat vertices" where
  "store_a = build [Add ''a'' (Some 1) Absent Absent]"

text \<open>
  The committed precedence edges: \<open>(p, w)\<close> when \<open>p\<close> is listed by the vertex at position
  \<open>w\<close>, that is, \<open>p\<close> comes before \<open>w\<close>.
\<close>

definition edges :: "'v vertices \<Rightarrow> (nat \<times> nat) set" where
  "edges s = {(p, w). w < length (verts s) \<and> p \<in> set (incoming (verts s ! w))}"

text \<open>
  What every store that \<open>add\<close> and \<open>each\<close> build satisfies: \<open>idx\<close> is the position, keys
  are not empty and differ, the listed predecessors exist, \<open>out\<close> says whether some vertex
  lists this one, and the edges have no cycle.
\<close>

definition store_ok :: "'v vertices \<Rightarrow> bool" where
  "store_ok s \<longleftrightarrow>
     (\<forall>i < length (verts s).
        idx (verts s ! i) = i \<and> key (verts s ! i) \<noteq> [] \<and>
        (\<forall>p \<in> set (incoming (verts s ! i)). p < length (verts s)) \<and>
        (out (verts s ! i) \<longleftrightarrow> (\<exists>w < length (verts s). i \<in> set (incoming (verts s ! w))))) \<and>
     distinct (map key (verts s)) \<and> acyclic (edges s)"

text \<open>The vertex an entry of the work stack stands for: \<open>i\<close> for enter, \<open>~i\<close> for exit.\<close>

definition ent :: "int \<Rightarrow> nat" where
  "ent e = (if 0 \<le> e then nat e else nat (NOT e))"

text \<open>
  Every entry of the work stack stands for a listed predecessor of the vertex of the
  nearest exit entry below it, or for the start vertex when there is none.
\<close>

fun parent_ok :: "(nat \<times> nat) set \<Rightarrow> nat \<Rightarrow> int list \<Rightarrow> bool" where
  "parent_ok E v [] = True"
| "parent_ok E v (e # st) =
     ((case filter (\<lambda>x. x < 0) st of [] \<Rightarrow> ent e = v | m # _ \<Rightarrow> (ent e, ent m) \<in> E)
      \<and> parent_ok E v st)"

text \<open>
  A list of vertices in which each one is a listed predecessor of the one before it.
\<close>

fun pred_path :: "(nat \<times> nat) set \<Rightarrow> nat list \<Rightarrow> bool" where
  "pred_path E [] = True"
| "pred_path E [x] = True"
| "pred_path E (x # y # xs) = ((y, x) \<in> E \<and> pred_path E (y # xs))"

definition search_inv :: "'v vertices \<Rightarrow> nat \<Rightarrow> string \<Rightarrow> 'v vertices \<Rightarrow> bool" where
  "search_inv s v search t \<longleftrightarrow>
     map unflag (verts t) = map unflag (verts s) \<and>
     (\<forall>e \<in> set (stack t). 0 \<le> e \<longrightarrow> nat e < length (verts s)) \<and>
     (\<forall>x \<in> set (path t). 0 \<le> x \<and> nat x < length (verts s)) \<and>
     map NOT (filter (\<lambda>e. e < 0) (stack t)) = path t \<and>
     (\<forall>i < length (verts s). flag (verts t ! i) \<longrightarrow>
        key (verts s ! i) \<noteq> search \<and>
        (\<forall>c \<in> set (incoming (verts s ! i)). flag (verts t ! c) \<or> int c \<in> set (stack t))) \<and>
     (flag (verts t ! v) \<or> int v \<in> set (stack t)) \<and>
     parent_ok (edges s) v (stack t) \<and>
     v < length (verts s)"

text \<open>What \<open>break\<close> leaves: the path from the start vertex to the vertex with the key.\<close>

definition found :: "'v vertices \<Rightarrow> nat \<Rightarrow> string \<Rightarrow> 'v vertices \<Rightarrow> bool" where
  "found s v search t \<longleftrightarrow>
     path t \<noteq> [] \<and>
     (\<forall>x \<in> set (path t). 0 \<le> x \<and> nat x < length (verts s)) \<and>
     key (verts s ! nat (hd (path t))) = search \<and>
     last (map nat (path t)) = v \<and>
     pred_path (edges s) (rev (map nat (path t)))"

text \<open>
  The keys that the cycle error lists after the key of the successor: those of a path
  that starts at the vertex \<open>v\<close>, follows listed predecessors and ends at the vertex \<open>w\<close>.
\<close>

definition cycle_path :: "'v vertices \<Rightarrow> nat \<Rightarrow> nat \<Rightarrow> nat list \<Rightarrow> bool" where
  "cycle_path s v w p \<longleftrightarrow>
     p \<noteq> [] \<and> hd p = v \<and> last p = w \<and> pred_path (edges s) p \<and>
     list_all (\<lambda>i. i < length (verts s)) p"

text \<open>
  An example store: \<open>add("b", 2, undefined, "a")\<close>, then \<open>add("c", undefined, undefined, "b")\<close>.
  The vertices are \<open>b\<close>, \<open>a\<close>, \<open>c\<close> at the positions 0, 1, 2; \<open>a\<close> comes before \<open>b\<close> and \<open>b\<close>
  before \<open>c\<close>.
\<close>

definition store_bac :: "nat vertices" where
  "store_bac = build [Add ''b'' (Some 2) Absent (Single ''a''), Add ''c'' None Absent (Single ''b'')]"

text \<open>
  The depth-first visit as a recursion, for a graph given by the predecessor lists \<open>G\<close>:
  a vertex that has been seen is skipped; otherwise it is marked as seen, its listed
  predecessors are visited in the order of the list, and then the vertex is emitted.
  \<open>dfs G u F r F' r'\<close>: visiting \<open>u\<close> with the seen vertices \<open>F\<close> and the emitted vertices \<open>r\<close>
  (first emitted first) ends with \<open>F'\<close> and \<open>r'\<close>.
\<close>

inductive dfs :: "(nat \<Rightarrow> nat list) \<Rightarrow> nat \<Rightarrow> nat set \<Rightarrow> nat list \<Rightarrow> nat set \<Rightarrow> nat list \<Rightarrow> bool"
  and dfs_list :: "(nat \<Rightarrow> nat list) \<Rightarrow> nat list \<Rightarrow> nat set \<Rightarrow> nat list \<Rightarrow> nat set \<Rightarrow> nat list \<Rightarrow> bool"
  for G :: "nat \<Rightarrow> nat list"
  where
    seen: "u \<in> F \<Longrightarrow> dfs G u F r F r"
  | fresh: "u \<notin> F \<Longrightarrow> dfs_list G (G u) (insert u F) r F' r' \<Longrightarrow> dfs G u F r F' (r' @ [u])"
  | nil: "dfs_list G [] F r F r"
  | cons: "dfs G c F r F1 r1 \<Longrightarrow> dfs_list G cs F1 r1 F' r' \<Longrightarrow> dfs_list G (c # cs) F r F' r'"

code_pred (modes: i \<Rightarrow> i \<Rightarrow> i \<Rightarrow> i \<Rightarrow> o \<Rightarrow> o \<Rightarrow> bool) dfs .

text \<open>The predecessor lists of a store, and the set of its flagged vertices.\<close>

definition preds :: "'v vertices \<Rightarrow> nat \<Rightarrow> nat list" where
  "preds s i = incoming (verts s ! i)"

definition flags :: "'v vertices \<Rightarrow> nat set" where
  "flags t = {i. i < length (verts t) \<and> flag (verts t ! i)}"

text \<open>
  \<open>at s t F r\<close>: the state \<open>t\<close> of a traversal of the store \<open>s\<close> has the flags \<open>F\<close> and has
  emitted \<open>r\<close>. \<open>reaches s t rest F r\<close>: the loop started in \<open>t\<close> comes to a state with the
  work stack \<open>rest\<close>, the flags \<open>F\<close>, the emitted vertices \<open>r\<close> and the path of \<open>t\<close>.
\<close>

definition at :: "'v vertices \<Rightarrow> 'v vertices \<Rightarrow> nat set \<Rightarrow> nat list \<Rightarrow> bool" where
  "at s t F r \<longleftrightarrow>
     map unflag (verts t) = map unflag (verts s) \<and> flags t = F \<and> result t = rev (map int r)"

definition reaches :: "'v vertices \<Rightarrow> 'v vertices \<Rightarrow> int list \<Rightarrow> nat set \<Rightarrow> nat list \<Rightarrow> bool" where
  "reaches s t rest F r \<longleftrightarrow>
     (\<exists>t'. visit_loop [] t = visit_loop [] t' \<and> at s t' F r \<and> stack t' = rest \<and> path t' = path t)"

text \<open>
  An emission order is topological for \<open>G\<close> when every vertex in it comes after all of its
  listed predecessors.
\<close>

definition topo :: "(nat \<Rightarrow> nat list) \<Rightarrow> nat list \<Rightarrow> bool" where
  "topo G r \<longleftrightarrow> (\<forall>i < length r. set (G (r ! i)) \<subseteq> set (take i r))"

text \<open>The vertices at which \<open>walk\<close> starts a visit: those without a successor, by position.\<close>

definition roots :: "'v vertices \<Rightarrow> nat list" where
  "roots s = filter (\<lambda>i. \<not> out (verts s ! i)) [0 ..< length (verts s)]"

text \<open>
  \<open>walk_order s order\<close>: \<open>order\<close> is what the recursive visit emits when it is started, on
  nothing seen, at the vertices without a successor in the order of their insertion.
\<close>

definition walk_order :: "'v vertices \<Rightarrow> nat list \<Rightarrow> bool" where
  "walk_order s order \<longleftrightarrow> (\<exists>F. dfs_list (preds s) (roots s) {} [] F order)"

text \<open>The calls of the visitor for the vertices at the positions \<open>order\<close>.\<close>

definition calls_of :: "'v vertices \<Rightarrow> nat list \<Rightarrow> (string \<times> 'v option) list" where
  "calls_of s order = map (\<lambda>i. (key (verts s ! i), val (verts s ! i))) order"

text \<open>In the calls of the visitor, a call with the key \<open>a\<close> comes before a call with the key \<open>b\<close>.\<close>

definition emitted_before :: "(string \<times> 'v option) list \<Rightarrow> string \<Rightarrow> string \<Rightarrow> bool" where
  "emitted_before calls a b \<longleftrightarrow>
     (\<exists>i j. i < j \<and> j < length calls \<and> fst (calls ! i) = a \<and> fst (calls ! j) = b)"

inductive_cases dfs_cases: "dfs G u F r F' r'"

inductive_cases dfs_list_nil_cases: "dfs_list G [] F r F' r'"

inductive_cases dfs_list_cons_cases: "dfs_list G (c # cs) F r F' r'"

text \<open>Two stores that differ at most in the flags and the scratch stacks.\<close>

definition same_graph :: "'v vertices \<Rightarrow> 'v vertices \<Rightarrow> bool" where
  "same_graph s s' \<longleftrightarrow> map unflag (verts s) = map unflag (verts s')"

text \<open>An operation of the store that does the same on stores with the same graph.\<close>

definition graph_op :: "nat \<Rightarrow> (string \<Rightarrow> 'v vertices \<Rightarrow> (unit, 'v) res) \<Rightarrow> bool" where
  "graph_op i f \<longleftrightarrow>
     (\<forall>b s s'. same_graph s s' \<and> i < length (verts s) \<longrightarrow>
        fst (f b s) = fst (f b s') \<and> same_graph (snd (f b s)) (snd (f b s')) \<and>
        i < length (verts (snd (f b s))))"

text \<open>The keys that a \<open>before\<close> or \<open>after\<close> argument names as constraint targets.\<close>

fun targets :: "keys \<Rightarrow> string set" where
  "targets Absent = {}"
| "targets (Single b) = (if b = [] then {} else {b})"
| "targets (Many bs) = set bs"

text \<open>A call that adds the key \<open>t\<close> explicitly.\<close>

fun adds_key :: "string \<Rightarrow> 'v call \<Rightarrow> bool" where
  "adds_key t (Add k v b a) = (k = t)"
| "adds_key t Each = False"

text \<open>Every vertex with the key \<open>t\<close> has the value \<open>undefined\<close>.\<close>

definition placeholder :: "string \<Rightarrow> 'v vertices \<Rightarrow> bool" where
  "placeholder t s \<longleftrightarrow> (\<forall>j < length (verts s). key (verts s ! j) = t \<longrightarrow> val (verts s ! j) = None)"

section \<open>Basic facts\<close>

declare visit_loop.simps [simp del]

lemma lookup_Some: "lookup k vs = Some i \<Longrightarrow> i < length vs \<and> key (vs ! i) = k"
  by (induction vs arbitrary: i) (auto split: if_splits)

lemma lookup_None: "lookup k vs = None \<longleftrightarrow> k \<notin> key ` set vs"
  by (induction vs) auto

lemma lookup_snoc:
  "lookup k (vs @ [x]) = (case lookup k vs of Some i \<Rightarrow> Some i
     | None \<Rightarrow> if key x = k then Some (length vs) else None)"
  by (induction vs) (auto split: option.splits)

lemma unflag_simps [simp]:
  "idx (unflag x) = idx x" "key (unflag x) = key x" "val (unflag x) = val x"
  "out (unflag x) = out x" "incoming (unflag x) = incoming x" "flag (unflag x) = False"
  "unflag (x\<lparr>flag := b\<rparr>) = unflag x"
  by (simp_all add: unflag_def)

lemma reset_verts: "verts (reset s) = map unflag (verts s)"
  by (simp add: reset_def unflag_def)

lemma unflag_update:
  "map unflag (vs[i := (vs ! i)\<lparr>flag := b\<rparr>]) = map unflag vs"
  by (metis list_update_id map_update unflag_simps(7))

lemma unflag_same_fields:
  assumes "map unflag vs' = map unflag vs"
  shows "length vs' = length vs"
    and "i < length vs \<Longrightarrow> idx (vs' ! i) = idx (vs ! i) \<and> key (vs' ! i) = key (vs ! i)
      \<and> val (vs' ! i) = val (vs ! i) \<and> out (vs' ! i) = out (vs ! i)
      \<and> incoming (vs' ! i) = incoming (vs ! i)"
proof -
  show l: "length vs' = length vs"
    using assms by (metis length_map)
  assume "i < length vs"
  with l assms have "unflag (vs' ! i) = unflag (vs ! i)"
    by (metis nth_map)
  then show "idx (vs' ! i) = idx (vs ! i) \<and> key (vs' ! i) = key (vs ! i)
      \<and> val (vs' ! i) = val (vs ! i) \<and> out (vs' ! i) = out (vs ! i)
      \<and> incoming (vs' ! i) = incoming (vs ! i)"
    by (metis unflag_simps(1-5))
qed

lemma visit_body_frame:
  "visit_body search index s = Continue s' \<or> visit_body search index s = Break s'
     \<or> visit_body search index s = Throw e s'
   \<Longrightarrow> map unflag (verts s') = map unflag (verts s)"
  by (auto simp: visit_body_def Let_def unflag_update
      split: if_splits prod.splits sum.splits list.splits dest!: pushIncoming_verts)

text \<open>An invariant of the loop carries over to whatever state the loop ends in.\<close>

lemma visit_loop_rule:
  assumes "I s"
    and "\<And>s index st s'. I s \<Longrightarrow> stack s = index # st \<Longrightarrow>
           visit_body search index (s\<lparr>stack := st\<rparr>) = Continue s' \<Longrightarrow> I s'"
    and "\<And>s. I s \<Longrightarrow> stack s = [] \<Longrightarrow> Q (Inr (), s)"
    and "\<And>s index st s'. I s \<Longrightarrow> stack s = index # st \<Longrightarrow>
           visit_body search index (s\<lparr>stack := st\<rparr>) = Break s' \<Longrightarrow> Q (Inr (), s')"
    and "\<And>s index st e s'. I s \<Longrightarrow> stack s = index # st \<Longrightarrow>
           visit_body search index (s\<lparr>stack := st\<rparr>) = Throw e s' \<Longrightarrow> Q (Inl e, s')"
  shows "Q (visit_loop search s)"
  using assms
proof (induction search s rule: visit_loop.induct)
  case (1 search s)
  note inv = "1.prems"(1) and step = "1.prems"(2) and fin = "1.prems"(3)
    and brk = "1.prems"(4) and thr = "1.prems"(5)
  show ?case
  proof (cases "stack s")
    case Nil
    with fin [OF inv] show ?thesis
      by (simp add: visit_loop.simps [of search s])
  next
    case (Cons index st)
    show ?thesis
    proof (cases "visit_body search index (s\<lparr>stack := st\<rparr>)")
      case (Continue s')
      from step [OF inv Cons Continue] have "I s'" .
      from "1.IH" [OF Cons Continue this step fin brk thr] Cons Continue show ?thesis
        by (simp add: visit_loop.simps [of search s])
    next
      case (Break s')
      from brk [OF inv Cons Break] Cons Break show ?thesis
        by (simp add: visit_loop.simps [of search s])
    next
      case (Throw e s')
      from thr [OF inv Cons Throw] Cons Throw show ?thesis
        by (simp add: visit_loop.simps [of search s])
    qed
  qed
qed

lemma visit_loop_frame:
  "map unflag (verts (snd (visit_loop search s))) = map unflag (verts s)"
proof (rule visit_loop_rule [where I = "\<lambda>t. map unflag (verts t) = map unflag (verts s)"
      and Q = "\<lambda>r. map unflag (verts (snd r)) = map unflag (verts s)"])
  show "map unflag (verts s) = map unflag (verts s)" by simp
qed (use visit_body_frame in \<open>force+\<close>)

lemma visit_frame:
  "map unflag (verts (snd (visit start search s))) = map unflag (verts s)"
  by (simp add: visit_def visit_loop_frame)

lemma check_frame:
  "map unflag (verts (snd (check v w s))) = map unflag (verts s)"
proof -
  have "map unflag (verts (snd (visit v w (reset s)))) = map unflag (verts s)"
    by (simp add: visit_frame reset_verts comp_def)
  then show ?thesis
    by (auto simp: check_def split: option.splits prod.splits sum.splits)
qed


lemma grows_refl: "grows s s"
  by (simp add: grows_def)

lemma grows_trans: "grows s t \<Longrightarrow> grows t u \<Longrightarrow> grows s u"
  unfolding grows_def
  by (auto intro: prefix_order.trans)

lemma unflag_grows: "map unflag (verts s') = map unflag (verts s) \<Longrightarrow> grows s s'"
  using unflag_same_fields [of "verts s'" "verts s"]
  by (simp add: grows_def)

lemma Vertices_add_grows: "Vertices_add k s = (r, s') \<Longrightarrow> grows s s'"
  by (auto simp: Vertices_add_def grows_def nth_append Let_def split: if_splits option.splits)

lemma commit_fields:
  assumes "vs1 = vs[w := (vs ! w)\<lparr>incoming := incoming (vs ! w) @ [x]\<rparr>]"
    and "vs2 = vs1[v := (vs1 ! v)\<lparr>out := True\<rparr>]"
    and "i < length vs"
  shows "idx (vs2 ! i) = idx (vs ! i)" and "key (vs2 ! i) = key (vs ! i)"
    and "val (vs2 ! i) = val (vs ! i)" and "flag (vs2 ! i) = flag (vs ! i)"
    and "incoming (vs2 ! i) = (if i = w then incoming (vs ! w) @ [x] else incoming (vs ! i))"
    and "out (vs2 ! i) = (i = v \<or> out (vs ! i))"
  using assms by (cases "i = v"; cases "i = w"; simp)+

lemma addEdge_grows:
  assumes "addEdge v w s = (r, s')"
  shows "grows s s'"
proof -
  obtain r0 s0 where c: "check v (key (verts s ! w)) s = (r0, s0)"
    by (cases "check v (key (verts s ! w)) s")
  have g0: "grows s s0"
    using check_frame [of v "key (verts s ! w)" s] c by (simp add: unflag_grows)
  have "grows s0 s'"
    using assms c
    by (auto simp: addEdge_def Let_def grows_def commit_fields [OF refl refl]
        split: sum.splits if_splits)
  with g0 show ?thesis
    by (rule grows_trans)
qed

lemma edge_before_grows: "edge_before v b s = (r, s') \<Longrightarrow> grows s s'"
  by (auto simp: edge_before_def split: prod.splits sum.splits
      intro: grows_trans Vertices_add_grows addEdge_grows)

lemma edge_after_grows: "edge_after v b s = (r, s') \<Longrightarrow> grows s s'"
  by (auto simp: edge_after_def split: prod.splits sum.splits
      intro: grows_trans Vertices_add_grows addEdge_grows)

lemma edges_loop_grows:
  assumes "\<And>b s r s'. f b s = (r, s') \<Longrightarrow> grows s s'"
  shows "edges_loop f bs s = (r, s') \<Longrightarrow> grows s s'"
proof (induction bs arbitrary: s)
  case Nil
  then show ?case by (simp add: grows_refl)
next
  case (Cons b bs)
  obtain r1 s1 where f: "f b s = (r1, s1)"
    by (cases "f b s")
  from assms [OF f] have g: "grows s s1" .
  show ?case
  proof (cases r1)
    case (Inl e)
    with Cons.prems f g show ?thesis by simp
  next
    case (Inr u)
    with Cons.prems f have "edges_loop f bs s1 = (r, s')" by simp
    from Cons.IH [OF this] g show ?thesis
      by (blast intro: grows_trans)
  qed
qed

lemma constraints_grows:
  assumes "\<And>b s r s'. f b s = (r, s') \<Longrightarrow> grows s s'"
  shows "constraints f ks s = (r, s') \<Longrightarrow> grows s s'"
  using assms edges_loop_grows [of f]
  by (cases ks) (auto simp: constraints_def grows_refl split: if_splits)

lemma Vertices_add_returns:
  "k \<noteq> [] \<Longrightarrow> \<exists>i s0. Vertices_add k s = (Inr i, s0)"
  by (simp add: Vertices_add_def Let_def split: option.split)

lemma DAG_add_grows:
  assumes "k \<noteq> []" and "DAG_add k v b a s = (r, s')"
  shows "grows (assigned k v s) s'"
proof -
  obtain i s0 where va: "Vertices_add k s = (Inr i, s0)"
    using Vertices_add_returns [OF assms(1)] by blast
  define s1 where "s1 = s0\<lparr>verts := (verts s0)[i := (verts s0 ! i)\<lparr>val := v\<rparr>]\<rparr>"
  have a: "assigned k v s = s1"
    by (simp add: assigned_def va s1_def)
  obtain r2 s2 where c: "constraints (edge_before i) b s1 = (r2, s2)"
    by (cases "constraints (edge_before i) b s1")
  have g2: "grows s1 s2"
    using constraints_grows [OF edge_before_grows c] .
  show ?thesis
  proof (cases r2)
    case (Inl e)
    with assms va c g2 a show ?thesis
      by (simp add: DAG_add_def s1_def)
  next
    case (Inr u)
    with assms va c have "constraints (edge_after i) a s2 = (r, s')"
      by (simp add: DAG_add_def s1_def)
    from constraints_grows [OF edge_after_grows this] g2 a show ?thesis
      by (auto intro: grows_trans)
  qed
qed


lemma keeps_grows: "keeps K s t \<Longrightarrow> grows t u \<Longrightarrow> keeps K s u"
  unfolding keeps_def grows_def
  by (auto intro: prefix_order.trans)

lemma keeps_assigned: "keeps {k} s (assigned k v s)"
proof (cases "k = []")
  case True
  then show ?thesis
    by (simp add: assigned_def Vertices_add_def keeps_def)
next
  case False
  show ?thesis
  proof (cases "lookup k (verts s)")
    case None
    with False show ?thesis
      by (auto simp: assigned_def Vertices_add_def keeps_def Let_def nth_append)
  next
    case (Some i)
    from lookup_Some [OF this] have "i < length (verts s)" and "key (verts s ! i) = k"
      by simp_all
    with False Some show ?thesis
      by (auto simp: assigned_def Vertices_add_def keeps_def nth_list_update)
  qed
qed

lemma DAG_add_keeps:
  assumes "DAG_add k v b a s = (r, s')"
  shows "keeps {k} s s'"
proof (cases "k = []")
  case True
  with assms show ?thesis
    by (simp add: DAG_add_def keeps_def)
next
  case False
  from keeps_assigned DAG_add_grows [OF False assms] show ?thesis
    by (rule keeps_grows)
qed

lemma edges_loop_empty_string:
  assumes "\<And>s. f [] s = (Inl (Error ''missing key''), s)"
  shows "edges_loop f (pre @ [] # post) s =
     (case edges_loop f pre s of
        (Inl e, s1) \<Rightarrow> (Inl e, s1)
      | (Inr _, s1) \<Rightarrow> (Inl (Error ''missing key''), s1))"
  by (induction pre arbitrary: s) (auto simp: assms split: prod.splits sum.splits)

lemma edge_empty_string:
  "edge_before i [] s = (Inl (Error ''missing key''), s)"
  "edge_after i [] s = (Inl (Error ''missing key''), s)"
  by (simp_all add: edge_before_def edge_after_def Vertices_add_def)

lemma edges_loop_empty_target:
  "edges_loop (edge_before i) (pre @ [] # post) s =
     (case edges_loop (edge_before i) pre s of
        (Inl e, s1) \<Rightarrow> (Inl e, s1)
      | (Inr _, s1) \<Rightarrow> (Inl (Error ''missing key''), s1))"
  "edges_loop (edge_after i) (pre @ [] # post) s =
     (case edges_loop (edge_after i) pre s of
        (Inl e, s1) \<Rightarrow> (Inl e, s1)
      | (Inr _, s1) \<Rightarrow> (Inl (Error ''missing key''), s1))"
  by (rule edges_loop_empty_string, rule edge_empty_string)+

lemma constraints_simps:
  "constraints f Absent s = (Inr (), s)"
  "constraints f (Single []) s = (Inr (), s)"
  "b \<noteq> [] \<Longrightarrow> constraints f (Single b) s = f b s"
  "constraints f (Many bs) s = edges_loop f bs s"
  by (simp_all add: constraints_def)

lemma pushIncoming_loop_closed:
  "\<forall>p \<in> set ps. p < length vs \<Longrightarrow>
     pushIncoming_loop vs ps st = (None, map int (rev (filter (\<lambda>p. \<not> flag (vs ! p)) ps)) @ st)"
  by (induction ps arbitrary: st) auto

lemma pushIncoming_closed:
  assumes "\<forall>p \<in> set (incoming x). p < length (verts t)"
  shows "pushIncoming x t =
     (Inr (), t\<lparr>stack := map int (filter (\<lambda>p. \<not> flag (verts t ! p)) (incoming x)) @ stack t\<rparr>)"
  using assms by (simp add: pushIncoming_def pushIncoming_loop_closed rev_filter)

lemma visit_body_exit:
  "index < 0 \<Longrightarrow> path t = x # p \<Longrightarrow>
     visit_body search index t = Continue (t\<lparr>path := p, result := NOT index # result t\<rparr>)"
  by (simp add: visit_body_def)

lemma visit_body_flagged:
  "0 \<le> index \<Longrightarrow> nat index < length (verts t) \<Longrightarrow> flag (verts t ! nat index) \<Longrightarrow>
     visit_body search index t = Continue t"
  by (simp add: visit_body_def)

lemma visit_body_found:
  "0 \<le> index \<Longrightarrow> nat index < length (verts t) \<Longrightarrow> \<not> flag (verts t ! nat index) \<Longrightarrow>
   search = key (verts t ! nat index) \<Longrightarrow>
     visit_body search index t =
       Break (t\<lparr>verts := (verts t)[nat index := (verts t ! nat index)\<lparr>flag := True\<rparr>],
                path := index # path t\<rparr>)"
  by (simp add: visit_body_def Let_def)

lemma visit_body_enter:
  assumes "0 \<le> index" and "nat index < length (verts t)" and "\<not> flag (verts t ! nat index)"
    and "search \<noteq> key (verts t ! nat index)"
    and "\<forall>p \<in> set (incoming (verts t ! nat index)). p < length (verts t)"
  shows "visit_body search index t =
       Continue (t\<lparr>verts := (verts t)[nat index := (verts t ! nat index)\<lparr>flag := True\<rparr>],
                   path := index # path t,
                   stack := map int (filter (\<lambda>p. \<not> flag ((verts t)[nat index :=
                       (verts t ! nat index)\<lparr>flag := True\<rparr>] ! p))
                     (incoming (verts t ! nat index))) @ NOT index # stack t\<rparr>)"
  using assms by (simp add: visit_body_def Let_def pushIncoming_closed)

lemma ent_simps [simp]: "ent (int i) = i" "ent (NOT (int i)) = i"
  by (simp_all add: ent_def not_int_def)

lemma markers_push:
  "filter (\<lambda>x. x < 0) (map int cs @ st) = filter (\<lambda>x. x < 0) st"
  by (induction cs) auto

lemma parent_ok_push:
  assumes "parent_ok E v (int i # st)" and "\<forall>c \<in> set cs. (c, i) \<in> E"
  shows "parent_ok E v (map int cs @ NOT (int i) # st)"
  using assms(2)
proof (induction cs)
  case Nil
  with assms(1) show ?case by (simp split: list.splits)
next
  case (Cons c cs)
  have "filter (\<lambda>x. x < 0) (map int cs @ NOT (int i) # st) = NOT (int i) # filter (\<lambda>x. x < 0) st"
    by (simp add: markers_push)
  with Cons show ?case by simp
qed

lemma search_inv_same:
  assumes "search_inv s v search t"
  shows "length (verts t) = length (verts s)"
    and "i < length (verts s) \<Longrightarrow> key (verts t ! i) = key (verts s ! i)"
    and "i < length (verts s) \<Longrightarrow> incoming (verts t ! i) = incoming (verts s ! i)"
  using assms unflag_same_fields [of "verts t" "verts s"]
  by (simp_all add: search_inv_def)

lemma search_inv_exit:
  assumes inv: "search_inv s v search t" and st: "stack t = index # st" and neg: "index < 0"
  shows "path t \<noteq> []"
    and "search_inv s v search (t\<lparr>stack := st, path := tl (path t), result := r\<rparr>)"
proof -
  from inv st neg have p: "path t = NOT index # map NOT (filter (\<lambda>e. e < 0) st)"
    by (simp add: search_inv_def)
  then show "path t \<noteq> []" by simp
  have neq: "int c \<noteq> index" for c
    using neg by simp
  show "search_inv s v search (t\<lparr>stack := st, path := tl (path t), result := r\<rparr>)"
    unfolding search_inv_def
  proof (intro conjI)
    show "map unflag (verts (t\<lparr>stack := st, path := tl (path t), result := r\<rparr>)) = map unflag (verts s)"
      using inv by (simp add: search_inv_def)
    show "\<forall>e\<in>set (stack (t\<lparr>stack := st, path := tl (path t), result := r\<rparr>)). 0 \<le> e \<longrightarrow> nat e < length (verts s)"
      using inv st by (simp add: search_inv_def)
    show "\<forall>x\<in>set (path (t\<lparr>stack := st, path := tl (path t), result := r\<rparr>)). 0 \<le> x \<and> nat x < length (verts s)"
      using inv p by (simp add: search_inv_def)
    show "map NOT (filter (\<lambda>e. e < 0) (stack (t\<lparr>stack := st, path := tl (path t), result := r\<rparr>)))
        = path (t\<lparr>stack := st, path := tl (path t), result := r\<rparr>)"
      using p by simp
    show "\<forall>i<length (verts s). flag (verts (t\<lparr>stack := st, path := tl (path t), result := r\<rparr>) ! i) \<longrightarrow>
        key (verts s ! i) \<noteq> search \<and>
        (\<forall>c\<in>set (incoming (verts s ! i)). flag (verts (t\<lparr>stack := st, path := tl (path t), result := r\<rparr>) ! c)
           \<or> int c \<in> set (stack (t\<lparr>stack := st, path := tl (path t), result := r\<rparr>)))"
      using inv st neq by (simp add: search_inv_def)
    show "flag (verts (t\<lparr>stack := st, path := tl (path t), result := r\<rparr>) ! v)
        \<or> int v \<in> set (stack (t\<lparr>stack := st, path := tl (path t), result := r\<rparr>))"
      using inv st neq by (simp add: search_inv_def)
    show "parent_ok (edges s) v (stack (t\<lparr>stack := st, path := tl (path t), result := r\<rparr>))"
      using inv st by (simp add: search_inv_def)
    show "v < length (verts s)"
      using inv by (simp add: search_inv_def)
  qed
qed

lemma search_inv_flagged:
  assumes inv: "search_inv s v search t" and st: "stack t = int i # st"
    and fl: "flag (verts t ! i)"
  shows "search_inv s v search (t\<lparr>stack := st\<rparr>)"
  unfolding search_inv_def
proof (intro conjI)
  show "map unflag (verts (t\<lparr>stack := st\<rparr>)) = map unflag (verts s)"
    using inv by (simp add: search_inv_def)
  show "\<forall>e\<in>set (stack (t\<lparr>stack := st\<rparr>)). 0 \<le> e \<longrightarrow> nat e < length (verts s)"
    using inv st by (simp add: search_inv_def)
  show "\<forall>x\<in>set (path (t\<lparr>stack := st\<rparr>)). 0 \<le> x \<and> nat x < length (verts s)"
    using inv by (simp add: search_inv_def)
  show "map NOT (filter (\<lambda>e. e < 0) (stack (t\<lparr>stack := st\<rparr>))) = path (t\<lparr>stack := st\<rparr>)"
    using inv st by (simp add: search_inv_def)
  show "\<forall>j<length (verts s). flag (verts (t\<lparr>stack := st\<rparr>) ! j) \<longrightarrow>
        key (verts s ! j) \<noteq> search \<and>
        (\<forall>c\<in>set (incoming (verts s ! j)). flag (verts (t\<lparr>stack := st\<rparr>) ! c)
           \<or> int c \<in> set (stack (t\<lparr>stack := st\<rparr>)))"
    using inv st fl by (auto simp: search_inv_def)
  show "flag (verts (t\<lparr>stack := st\<rparr>) ! v) \<or> int v \<in> set (stack (t\<lparr>stack := st\<rparr>))"
    using inv st fl by (auto simp: search_inv_def)
  show "parent_ok (edges s) v (stack (t\<lparr>stack := st\<rparr>))"
    using inv st by (simp add: search_inv_def)
  show "v < length (verts s)"
    using inv by (simp add: search_inv_def)
qed

lemma flag_update_nth:
  "c < length vs \<Longrightarrow> flag (vs[i := (vs ! i)\<lparr>flag := True\<rparr>] ! c) = (c = i \<or> flag (vs ! c))"
  by (cases "c = i") simp_all

lemma store_ok_incoming:
  "store_ok s \<Longrightarrow> i < length (verts s) \<Longrightarrow> c \<in> set (incoming (verts s ! i)) \<Longrightarrow>
     c < length (verts s) \<and> (c, i) \<in> edges s"
  by (simp add: store_ok_def edges_def)

lemma search_inv_enter:
  assumes inv: "search_inv s v search t" and ok: "store_ok s" and st: "stack t = int i # st"
    and nf: "\<not> flag (verts t ! i)" and nk: "key (verts s ! i) \<noteq> search"
    and vs': "vs' = (verts t)[i := (verts t ! i)\<lparr>flag := True\<rparr>]"
    and cs: "cs = filter (\<lambda>p. \<not> flag (vs' ! p)) (incoming (verts t ! i))"
    and t': "t' = t\<lparr>verts := vs', path := int i # path t, stack := map int cs @ NOT (int i) # st\<rparr>"
  shows "search_inv s v search t'"
proof -
  from inv st have i: "i < length (verts s)"
    by (auto simp: search_inv_def)
  note same = search_inv_same [OF inv]
  have inc: "incoming (verts t ! i) = incoming (verts s ! i)"
    using same(3) i by simp
  have fl: "flag (vs' ! c) = (c = i \<or> flag (verts t ! c))" if "c < length (verts s)" for c
    using that same(1) by (simp add: vs' flag_update_nth)
  have csub: "c < length (verts s) \<and> (c, i) \<in> edges s" if "c \<in> set cs" for c
    using that store_ok_incoming [OF ok i, of c] by (simp add: cs inc)
  have stk: "stack t' = map int cs @ NOT (int i) # st" and pth: "path t' = int i # path t"
    and vts: "verts t' = vs'"
    by (simp_all add: t')
  have p0: "map NOT (filter (\<lambda>e. e < 0) st) = path t"
    using inv st by (simp add: search_inv_def)
  have child: "flag (vs' ! c) \<or> int c \<in> set (stack t')"
    if j: "j < length (verts s)" and fj: "flag (vs' ! j)" and c: "c \<in> set (incoming (verts s ! j))"
    for j c
  proof -
    from store_ok_incoming [OF ok j c] have cn: "c < length (verts s)" by simp
    show ?thesis
    proof (cases "j = i")
      case True
      with c cn show ?thesis
        by (auto simp: stk cs inc)
    next
      case False
      with fj j have "flag (verts t ! j)" by (simp add: fl)
      with inv j c have "flag (verts t ! c) \<or> int c \<in> set (stack t)"
        by (simp add: search_inv_def)
      with st cn show ?thesis
        by (auto simp: fl stk)
    qed
  qed
  show ?thesis
    unfolding search_inv_def
  proof (intro conjI)
    show "map unflag (verts t') = map unflag (verts s)"
      using inv by (simp add: vts vs' unflag_update search_inv_def)
    show "\<forall>e\<in>set (stack t'). 0 \<le> e \<longrightarrow> nat e < length (verts s)"
      using inv st csub by (auto simp: stk search_inv_def)
    show "\<forall>x\<in>set (path t'). 0 \<le> x \<and> nat x < length (verts s)"
      using inv i by (simp add: pth search_inv_def)
    show "map NOT (filter (\<lambda>e. e < 0) (stack t')) = path t'"
      by (simp add: stk pth markers_push p0)
    show "\<forall>j<length (verts s). flag (verts t' ! j) \<longrightarrow>
        key (verts s ! j) \<noteq> search \<and>
        (\<forall>c\<in>set (incoming (verts s ! j)). flag (verts t' ! c) \<or> int c \<in> set (stack t'))"
    proof (intro allI impI conjI ballI)
      fix j assume j: "j < length (verts s)" and fj: "flag (verts t' ! j)"
      show "key (verts s ! j) \<noteq> search"
      proof (cases "j = i")
        case True
        with nk show ?thesis by simp
      next
        case False
        with fj j have "flag (verts t ! j)" by (simp add: vts fl)
        with inv j show ?thesis by (simp add: search_inv_def)
      qed
      fix c assume "c \<in> set (incoming (verts s ! j))"
      from child [OF j _ this] fj show "flag (verts t' ! c) \<or> int c \<in> set (stack t')"
        by (simp add: vts)
    qed
    show "flag (verts t' ! v) \<or> int v \<in> set (stack t')"
    proof -
      from inv have "flag (verts t ! v) \<or> int v \<in> set (stack t)"
        by (simp add: search_inv_def)
      then show ?thesis
      proof
        assume f: "flag (verts t ! v)"
        have "v < length (verts s)"
          using inv by (simp add: search_inv_def)
        with f show ?thesis by (simp add: vts fl)
      next
        assume "int v \<in> set (stack t)"
        with st have "v = i \<or> int v \<in> set st" by auto
        with i show ?thesis by (auto simp: vts fl stk)
      qed
    qed
    show "parent_ok (edges s) v (stack t')"
      unfolding stk
    proof (rule parent_ok_push)
      show "parent_ok (edges s) v (int i # st)"
        using inv st by (simp add: search_inv_def)
      show "\<forall>c\<in>set cs. (c, i) \<in> edges s"
        using csub by simp
    qed
    show "v < length (verts s)"
      using inv by (simp add: search_inv_def)
  qed
qed

lemma pred_path_snoc:
  "pred_path E (xs @ [y]) \<Longrightarrow> (x, y) \<in> E \<Longrightarrow> pred_path E (xs @ [y, x])"
  by (induction E xs rule: pred_path.induct) auto

lemma parent_ok_chain:
  "parent_ok E v (e # st) \<Longrightarrow>
     last (ent e # map ent (filter (\<lambda>x. x < 0) st)) = v \<and>
     pred_path E (rev (map ent (filter (\<lambda>x. x < 0) st)) @ [ent e])"
proof (induction st arbitrary: e)
  case Nil
  then show ?case by simp
next
  case (Cons a st)
  show ?case
  proof (cases "a < 0")
    case True
    from Cons.prems True have ea: "(ent e, ent a) \<in> E" and pa: "parent_ok E v (a # st)"
      by simp_all
    from Cons.IH [OF pa] have l: "last (ent a # map ent (filter (\<lambda>x. x < 0) st)) = v"
      and p: "pred_path E (rev (map ent (filter (\<lambda>x. x < 0) st)) @ [ent a])"
      by simp_all
    from pred_path_snoc [OF p ea] l True show ?thesis
      by simp
  next
    case False
    with Cons.prems have "parent_ok E v (e # st)"
      by simp
    from Cons.IH [OF this] False show ?thesis
      by simp
  qed
qed

lemma search_inv_step:
  assumes inv: "search_inv s v search t" and ok: "store_ok s" and st: "stack t = index # st"
    and body: "visit_body search index (t\<lparr>stack := st\<rparr>) = Continue t'"
  shows "search_inv s v search t'"
proof (cases "index < 0")
  case True
  from search_inv_exit(1) [OF inv st True] obtain x p where p: "path t = x # p"
    by (cases "path t") auto
  with visit_body_exit [of index "t\<lparr>stack := st\<rparr>" x p search] True body
  have "t' = t\<lparr>stack := st, path := tl (path t), result := NOT index # result t\<rparr>"
    by simp
  with search_inv_exit(2) [OF inv st True] show ?thesis
    by simp
next
  case False
  then obtain i where i: "index = int i"
    by (metis nat_0_le not_le_imp_less)
  from inv st i have n: "i < length (verts s)"
    by (auto simp: search_inv_def)
  note same = search_inv_same [OF inv]
  show ?thesis
  proof (cases "flag (verts t ! i)")
    case True
    with visit_body_flagged [of index "t\<lparr>stack := st\<rparr>" search] body i n same(1)
    have "t' = t\<lparr>stack := st\<rparr>" by simp
    with search_inv_flagged [OF inv st [unfolded i] True] show ?thesis
      by simp
  next
    case nf: False
    show ?thesis
    proof (cases "search = key (verts t ! i)")
      case True
      with visit_body_found [of index "t\<lparr>stack := st\<rparr>" search] body i n same(1) nf
      show ?thesis by simp
    next
      case nk: False
      have rng: "\<forall>p \<in> set (incoming (verts (t\<lparr>stack := st\<rparr>) ! nat index)).
          p < length (verts (t\<lparr>stack := st\<rparr>))"
        using store_ok_incoming [OF ok n] same(1) same(3) [OF n] i by simp
      from visit_body_enter [of index "t\<lparr>stack := st\<rparr>" search, OF _ _ _ _ rng] body i n same(1) nf nk
      have t': "t' = t\<lparr>verts := (verts t)[i := (verts t ! i)\<lparr>flag := True\<rparr>],
          path := int i # path t,
          stack := map int (filter (\<lambda>p. \<not> flag ((verts t)[i := (verts t ! i)\<lparr>flag := True\<rparr>] ! p))
             (incoming (verts t ! i))) @ NOT (int i) # st\<rparr>"
        by simp
      from nk same(2) [OF n] have "key (verts s ! i) \<noteq> search" by simp
      from search_inv_enter [OF inv ok st [unfolded i] nf this refl refl t'] show ?thesis .
    qed
  qed
qed

lemma search_inv_no_throw:
  assumes inv: "search_inv s v search t" and ok: "store_ok s" and st: "stack t = index # st"
  shows "visit_body search index (t\<lparr>stack := st\<rparr>) \<noteq> Throw e t'"
proof (cases "index < 0")
  case True
  from search_inv_exit(1) [OF inv st True] obtain x p where p: "path t = x # p"
    by (cases "path t") auto
  with visit_body_exit [of index "t\<lparr>stack := st\<rparr>" x p search] True show ?thesis
    by simp
next
  case False
  then obtain i where i: "index = int i"
    by (metis nat_0_le not_le_imp_less)
  from inv st i have n: "i < length (verts s)"
    by (auto simp: search_inv_def)
  note same = search_inv_same [OF inv]
  have rng: "\<forall>p \<in> set (incoming (verts (t\<lparr>stack := st\<rparr>) ! nat index)).
      p < length (verts (t\<lparr>stack := st\<rparr>))"
    using store_ok_incoming [OF ok n] same(1) same(3) [OF n] i by simp
  show ?thesis
    using visit_body_flagged [of index "t\<lparr>stack := st\<rparr>" search]
      visit_body_found [of index "t\<lparr>stack := st\<rparr>" search]
      visit_body_enter [of index "t\<lparr>stack := st\<rparr>" search, OF _ _ _ _ rng]
      i n same(1)
    by (cases "flag (verts t ! i)"; cases "search = key (verts t ! i)"; simp)
qed

lemma search_inv_break:
  assumes inv: "search_inv s v search t" and ok: "store_ok s" and st: "stack t = index # st"
    and body: "visit_body search index (t\<lparr>stack := st\<rparr>) = Break t'"
  shows "map unflag (verts t') = map unflag (verts s) \<and> found s v search t'"
proof -
  from visit_body_frame [of search index "t\<lparr>stack := st\<rparr>" t'] body inv
  have fr: "map unflag (verts t') = map unflag (verts s)"
    by (simp add: search_inv_def)
  from body have pos: "0 \<le> index"
    by (auto simp: visit_body_def split: list.splits if_splits)
  then obtain i where i: "index = int i"
    by (metis nat_0_le)
  from inv st i have n: "i < length (verts s)"
    by (auto simp: search_inv_def)
  note same = search_inv_same [OF inv]
  have rng: "\<forall>p \<in> set (incoming (verts (t\<lparr>stack := st\<rparr>) ! nat index)).
      p < length (verts (t\<lparr>stack := st\<rparr>))"
    using store_ok_incoming [OF ok n] same(1) same(3) [OF n] i by simp
  have k: "search = key (verts t ! i) \<and> path t' = int i # path t"
    using visit_body_flagged [of index "t\<lparr>stack := st\<rparr>" search]
      visit_body_found [of index "t\<lparr>stack := st\<rparr>" search]
      visit_body_enter [of index "t\<lparr>stack := st\<rparr>" search, OF _ _ _ _ rng]
      i n same(1) body
    by (cases "flag (verts t ! i)"; cases "search = key (verts t ! i)"; auto)
  from inv st i have po: "parent_ok (edges s) v (int i # st)"
    and pt: "path t = map NOT (filter (\<lambda>e. e < 0) st)"
    and pr: "\<forall>x \<in> set (path t). 0 \<le> x \<and> nat x < length (verts s)"
    by (simp_all add: search_inv_def)
  have m: "map nat (path t) = map ent (filter (\<lambda>x. x < 0) st)"
    by (simp add: pt ent_def)
  from parent_ok_chain [OF po] m k
  have "last (map nat (path t')) = v \<and> pred_path (edges s) (rev (map nat (path t')))"
    by simp
  with k pr n same(2) [OF n] fr show ?thesis
    by (simp add: found_def)
qed

lemma reset_stacks [simp]:
  "stack (reset s) = []" "path (reset s) = []" "result (reset s) = []"
  by (simp_all add: reset_def)

lemma search_inv_flag:
  assumes "search_inv s v search t" and "i < length (verts s)" and "flag (verts t ! i)"
  shows "key (verts s ! i) \<noteq> search"
    and "\<forall>c \<in> set (incoming (verts s ! i)). flag (verts t ! c) \<or> int c \<in> set (stack t)"
  using assms unfolding search_inv_def by blast+

lemma closed_reach:
  assumes cl: "\<And>u c. u < n \<Longrightarrow> F u \<Longrightarrow> (c, u) \<in> E \<Longrightarrow> c < n \<and> F c"
    and v: "v < n" "F v" and c: "(c, v) \<in> E\<^sup>*"
  shows "c < n \<and> F c"
  using c
proof (induction rule: converse_rtrancl_induct)
  case base
  from v show ?case by simp
next
  case (step y z)
  with cl [of z y] show ?case by simp
qed

lemma visit_search:
  assumes ok: "store_ok s" and v: "v < length (verts s)"
  shows "\<exists>t. visit v search (reset s) = (Inr (), t) \<and>
           map unflag (verts t) = map unflag (verts s) \<and>
           (if path t = [] then \<forall>c. (c, v) \<in> (edges s)\<^sup>* \<longrightarrow> key (verts s ! c) \<noteq> search
            else found s v search t)"
proof -
  let ?Q = "\<lambda>r. \<exists>t. r = (Inr (), t) \<and> map unflag (verts t) = map unflag (verts s) \<and>
           (if path t = [] then \<forall>c. (c, v) \<in> (edges s)\<^sup>* \<longrightarrow> key (verts s ! c) \<noteq> search
            else found s v search t)"
  let ?t0 = "(reset s)\<lparr>stack := int (idx (verts (reset s) ! v)) # stack (reset s)\<rparr>"
  have idx: "idx (verts (reset s) ! v) = v"
    using ok v by (simp add: reset_verts store_ok_def)
  have "?Q (visit_loop search ?t0)"
  proof (rule visit_loop_rule [where I = "search_inv s v search"])
    show "search_inv s v search ?t0"
      using v idx by (simp add: search_inv_def) (simp add: reset_verts comp_def)
  next
    fix t index st t'
    assume "search_inv s v search t" "stack t = index # st"
      "visit_body search index (t\<lparr>stack := st\<rparr>) = Continue t'"
    then show "search_inv s v search t'"
      using search_inv_step [OF _ ok] by blast
  next
    fix t assume inv: "search_inv s v search t" and e: "stack t = []"
    from inv e have p: "path t = []" and fv: "flag (verts t ! v)"
      and fr: "map unflag (verts t) = map unflag (verts s)"
      by (simp_all add: search_inv_def)
    have reach: "c < length (verts s) \<and> flag (verts t ! c)" if "(c, v) \<in> (edges s)\<^sup>*" for c
    proof (rule closed_reach [where F = "\<lambda>u. flag (verts t ! u)" and n = "length (verts s)"
          and E = "edges s" and v = v, OF _ v fv that])
      fix u c assume u: "u < length (verts s)" and fu: "flag (verts t ! u)"
        and cu: "(c, u) \<in> edges s"
      from cu have cin: "c \<in> set (incoming (verts s ! u))"
        by (simp add: edges_def)
      from store_ok_incoming [OF ok u cin] have cn: "c < length (verts s)"
        by simp
      from search_inv_flag [OF inv u fu] cin e have "flag (verts t ! c)"
        by auto
      with cn show "c < length (verts s) \<and> flag (verts t ! c)"
        by simp
    qed
    have "key (verts s ! c) \<noteq> search" if "(c, v) \<in> (edges s)\<^sup>*" for c
      using reach [OF that] search_inv_flag [OF inv, of c] by simp
    with p fr show "?Q (Inr (), t)"
      by simp
  next
    fix t index st t'
    assume "search_inv s v search t" "stack t = index # st"
      "visit_body search index (t\<lparr>stack := st\<rparr>) = Break t'"
    from search_inv_break [OF this(1) ok this(2,3)] show "?Q (Inr (), t')"
      by (simp add: found_def)
  next
    fix t index st e t'
    assume "search_inv s v search t" "stack t = index # st"
      "visit_body search index (t\<lparr>stack := st\<rparr>) = Throw e t'"
    with search_inv_no_throw [OF this(1) ok this(2), of e t'] show "?Q (Inl e, t')"
      by simp
  qed
  then show ?thesis
    by (simp add: visit_def)
qed

lemma each_loop_in_range:
  "\<forall>x \<in> set xs. 0 \<le> x \<and> nat x < length vs \<Longrightarrow>
     each_loop vs xs = Inr (map (\<lambda>x. (key (vs ! nat x), val (vs ! nat x))) xs)"
  by (induction xs) (auto simp: not_le)

lemma shallow_result:
  "\<forall>p \<in> set ps. p < length vs \<Longrightarrow>
     shallow vs vkey w ps =
       (if \<exists>p \<in> set ps. key (vs ! p) = w then Some (Error (chain_msg w [vkey, w])) else None)"
  by (induction ps) (auto simp: not_le)

lemma store_ok_key_inj:
  assumes "store_ok s" and "i < length (verts s)" and "j < length (verts s)"
    and "key (verts s ! i) = key (verts s ! j)"
  shows "i = j"
proof -
  from assms(1) have "distinct (map key (verts s))"
    by (simp add: store_ok_def)
  with assms(2-4) show ?thesis
    by (metis length_map nth_eq_iff_index_eq nth_map)
qed

lemma edges_cong:
  assumes "map unflag (verts s') = map unflag (verts s)"
  shows "edges s' = edges s"
  using unflag_same_fields [OF assms] by (auto simp: edges_def)

lemma store_ok_cong:
  assumes "map unflag (verts s') = map unflag (verts s)"
  shows "store_ok s' = store_ok s"
proof -
  note f = unflag_same_fields [OF assms]
  have "map key (verts s') = map key (map unflag (verts s'))"
    by (simp add: comp_def)
  also have "\<dots> = map key (verts s)"
    by (simp add: assms comp_def)
  finally have k: "map key (verts s') = map key (verts s)" .
  have i: "i < length (verts s) \<Longrightarrow> idx (verts s' ! i) = idx (verts s ! i)"
    and kk: "i < length (verts s) \<Longrightarrow> key (verts s' ! i) = key (verts s ! i)"
    and o: "i < length (verts s) \<Longrightarrow> out (verts s' ! i) = out (verts s ! i)"
    and n: "i < length (verts s) \<Longrightarrow> incoming (verts s' ! i) = incoming (verts s ! i)" for i
    using f(2) [of i] by simp_all
  show ?thesis
    by (simp add: store_ok_def edges_cong [OF assms] k f(1) i kk o n cong: conj_cong)
qed

lemma pred_path_reach:
  "pred_path E p \<Longrightarrow> p \<noteq> [] \<Longrightarrow> (last p, hd p) \<in> E\<^sup>*"
proof (induction E p rule: pred_path.induct)
  case (3 E x y xs)
  then have "(last (y # xs), y) \<in> E\<^sup>*" and "(y, x) \<in> E"
    by simp_all
  then show ?case by simp
qed simp_all

lemma check_result:
  assumes ok: "store_ok s" and v: "v < length (verts s)" and w: "w < length (verts s)"
  shows "map unflag (verts (snd (check v (key (verts s ! w)) s))) = map unflag (verts s)"
    and "(w, v) \<notin> (edges s)\<^sup>* \<Longrightarrow> fst (check v (key (verts s ! w)) s) = Inr ()"
    and "(w, v) \<in> (edges s)\<^sup>* \<Longrightarrow> \<exists>p. cycle_path s v w p \<and>
           fst (check v (key (verts s ! w)) s) =
             Inl (Error (chain_msg (key (verts s ! w)) (map (\<lambda>i. key (verts s ! i)) p)))"
proof -
  let ?wk = "key (verts s ! w)"
  let ?E = "edges s"
  show "map unflag (verts (snd (check v ?wk s))) = map unflag (verts s)"
    by (rule check_frame)
  have goal: "if (w, v) \<in> ?E\<^sup>* then \<exists>p. cycle_path s v w p \<and>
           fst (check v ?wk s) = Inl (Error (chain_msg ?wk (map (\<lambda>i. key (verts s ! i)) p)))
      else fst (check v ?wk s) = Inr ()"
  proof (cases "v = w")
    case True
    then have "cycle_path s v w [v]"
      using v by (simp add: cycle_path_def)
    moreover have "fst (check v ?wk s) = Inl (Error (chain_msg ?wk (map (\<lambda>i. key (verts s ! i)) [v])))"
      using True by (simp add: check_def)
    ultimately show ?thesis
      using True by auto
  next
    case ne: False
    with store_ok_key_inj [OF ok v w] have kne: "key (verts s ! v) \<noteq> ?wk"
      by auto
    show ?thesis
    proof (cases "incoming (verts s ! v) = []")
      case True
      have "(w, v) \<notin> ?E\<^sup>*"
      proof
        assume "(w, v) \<in> ?E\<^sup>*"
        with ne obtain c where "(c, v) \<in> ?E"
          by (metis rtranclE)
        with True show False by (simp add: edges_def)
      qed
      with True kne show ?thesis
        by (simp add: check_def)
    next
      case ni: False
      have rng: "\<forall>p \<in> set (incoming (verts s ! v)). p < length (verts s)"
        using store_ok_incoming [OF ok v] by blast
      note sh = shallow_result [OF rng, of "key (verts s ! v)" ?wk]
      show ?thesis
      proof (cases "\<exists>p \<in> set (incoming (verts s ! v)). key (verts s ! p) = ?wk")
        case True
        then obtain p where p: "p \<in> set (incoming (verts s ! v))" "key (verts s ! p) = ?wk"
          by blast
        with store_ok_incoming [OF ok v p(1)] store_ok_key_inj [OF ok _ w p(2)]
        have e: "(w, v) \<in> ?E" by simp
        then have "cycle_path s v w [v, w]"
          using v w by (simp add: cycle_path_def)
        moreover have "fst (check v ?wk s) =
            Inl (Error (chain_msg ?wk (map (\<lambda>i. key (verts s ! i)) [v, w])))"
          using True kne ni sh by (simp add: check_def)
        ultimately show ?thesis
          using e by auto
      next
        case nosh: False
        from visit_search [OF ok v, of ?wk] obtain t
          where vis: "visit v ?wk (reset s) = (Inr (), t)"
            and fr: "map unflag (verts t) = map unflag (verts s)"
            and res: "if path t = [] then \<forall>c. (c, v) \<in> ?E\<^sup>* \<longrightarrow> key (verts s ! c) \<noteq> ?wk
                      else found s v ?wk t"
          by blast
        show ?thesis
        proof (cases "path t = []")
          case True
          with res have "(w, v) \<notin> ?E\<^sup>*" by auto
          moreover have "fst (check v ?wk s) = Inr ()"
            using True kne ni sh nosh vis by (simp add: check_def)
          ultimately show ?thesis by simp
        next
          case False
          with res have fo: "found s v ?wk t" by simp
          let ?p = "rev (map nat (path t))"
          note f = unflag_same_fields [OF fr]
          from fo have inr: "\<forall>x \<in> set (rev (path t)). 0 \<le> x \<and> nat x < length (verts t)"
            by (simp add: found_def f(1))
          have calls: "Vertices_each (path t) t =
              Inr (map (\<lambda>x. (key (verts t ! nat x), val (verts t ! nat x))) (rev (path t)))"
            unfolding Vertices_each_def by (rule each_loop_in_range [OF inr])
          have keys: "map fst (map (\<lambda>x. (key (verts t ! nat x), val (verts t ! nat x))) (rev (path t)))
              = map (\<lambda>i. key (verts s ! i)) ?p"
            using inr f(1) f(2) by (simp add: rev_map comp_def)
          have chk: "fst (check v ?wk s) = Inl (Error (chain_msg ?wk (map (\<lambda>i. key (verts s ! i)) ?p)))"
            using False kne ni sh nosh vis calls keys by (simp add: check_def)
          from fo False have hdp: "nat (hd (path t)) < length (verts s)"
            by (cases "path t") (auto simp: found_def)
          from fo store_ok_key_inj [OF ok hdp w] have lastp: "nat (hd (path t)) = w"
            by (simp add: found_def)
          have cp: "cycle_path s v w ?p"
            using fo False lastp
            by (auto simp: cycle_path_def found_def hd_rev last_rev hd_map last_map list_all_iff)
          from pred_path_reach [of ?E ?p] cp have "(w, v) \<in> ?E\<^sup>*"
            by (simp add: cycle_path_def)
          with cp chk show ?thesis by auto
        qed
      qed
    qed
  qed
  from goal show "(w, v) \<notin> ?E\<^sup>* \<Longrightarrow> fst (check v ?wk s) = Inr ()"
    by simp
  from goal show "(w, v) \<in> ?E\<^sup>* \<Longrightarrow> \<exists>p. cycle_path s v w p \<and>
           fst (check v ?wk s) = Inl (Error (chain_msg ?wk (map (\<lambda>i. key (verts s ! i)) p)))"
    by simp
qed

lemma fields_cong:
  assumes l: "length (verts s') = length (verts s)"
    and f: "\<And>i. i < length (verts s) \<Longrightarrow>
        idx (verts s' ! i) = idx (verts s ! i) \<and> key (verts s' ! i) = key (verts s ! i) \<and>
        out (verts s' ! i) = out (verts s ! i) \<and> incoming (verts s' ! i) = incoming (verts s ! i)"
  shows "edges s' = edges s" and "store_ok s' = store_ok s"
proof -
  have i: "i < length (verts s) \<Longrightarrow> idx (verts s' ! i) = idx (verts s ! i)"
    and kk: "i < length (verts s) \<Longrightarrow> key (verts s' ! i) = key (verts s ! i)"
    and o: "i < length (verts s) \<Longrightarrow> out (verts s' ! i) = out (verts s ! i)"
    and n: "i < length (verts s) \<Longrightarrow> incoming (verts s' ! i) = incoming (verts s ! i)" for i
    using f [of i] by simp_all
  show e: "edges s' = edges s"
    using l n by (auto simp: edges_def)
  have k: "map key (verts s') = map key (verts s)"
    using l kk by (simp add: list_eq_iff_nth_eq)
  show "store_ok s' = store_ok s"
    by (simp add: store_ok_def e k l i kk o n cong: conj_cong)
qed

lemma assign_ok:
  "store_ok (s\<lparr>verts := (verts s)[i := (verts s ! i)\<lparr>val := v\<rparr>]\<rparr>) = store_ok s"
  "edges (s\<lparr>verts := (verts s)[i := (verts s ! i)\<lparr>val := v\<rparr>]\<rparr>) = edges s"
proof -
  have f: "idx ((verts s)[i := (verts s ! i)\<lparr>val := v\<rparr>] ! j) = idx (verts s ! j) \<and>
      key ((verts s)[i := (verts s ! i)\<lparr>val := v\<rparr>] ! j) = key (verts s ! j) \<and>
      out ((verts s)[i := (verts s ! i)\<lparr>val := v\<rparr>] ! j) = out (verts s ! j) \<and>
      incoming ((verts s)[i := (verts s ! i)\<lparr>val := v\<rparr>] ! j) = incoming (verts s ! j)"
    if "j < length (verts s)" for j
    using that by (cases "j = i") simp_all
  show "store_ok (s\<lparr>verts := (verts s)[i := (verts s ! i)\<lparr>val := v\<rparr>]\<rparr>) = store_ok s"
    by (rule fields_cong(2)) (use f in simp_all)
  show "edges (s\<lparr>verts := (verts s)[i := (verts s ! i)\<lparr>val := v\<rparr>]\<rparr>) = edges s"
    by (rule fields_cong(1)) (use f in simp_all)
qed

lemma new_Vertices_ok: "store_ok new_Vertices"
  by (simp add: store_ok_def new_Vertices_def edges_def acyclic_def)

lemma Vertices_add_ok:
  assumes ok: "store_ok s" and k: "k \<noteq> []"
  shows "\<exists>i s'. Vertices_add k s = (Inr i, s') \<and> store_ok s' \<and> i < length (verts s') \<and>
           key (verts s' ! i) = k \<and> edges s' = edges s \<and>
           lookup k (verts s') = Some i"
proof (cases "lookup k (verts s)")
  case (Some i)
  with lookup_Some [OF Some] ok k show ?thesis
    by (simp add: Vertices_add_def)
next
  case None
  let ?n = "length (verts s)"
  let ?new = "\<lparr>idx = ?n, key = k, val = None, out = False, flag = False, incoming = []\<rparr>"
  let ?s' = "s\<lparr>verts := verts s @ [?new]\<rparr>"
  have va: "Vertices_add k s = (Inr ?n, ?s')"
    using None k by (simp add: Vertices_add_def Let_def)
  have e: "edges ?s' = edges s"
    by (auto simp: edges_def nth_append less_Suc_eq)
  from None have fresh: "k \<notin> key ` set (verts s)"
    by (simp add: lookup_None)
  have lk: "lookup k (verts ?s') = Some ?n"
    using None by (simp add: lookup_snoc)
  have inc: "p < ?n" if "i < ?n" "p \<in> set (incoming (verts s ! i))" for i p
    using store_ok_incoming [OF ok that] by simp
  have "store_ok ?s'"
    unfolding store_ok_def e
  proof (intro conjI allI impI)
    fix i assume i: "i < length (verts ?s')"
    show "idx (verts ?s' ! i) = i"
      using i ok by (auto simp: nth_append store_ok_def)
    show "key (verts ?s' ! i) \<noteq> []"
      using i ok k by (auto simp: nth_append store_ok_def)
    show "\<forall>p\<in>set (incoming (verts ?s' ! i)). p < length (verts ?s')"
      using i inc by (auto simp: nth_append less_Suc_eq)
    show "out (verts ?s' ! i) = (\<exists>w<length (verts ?s'). i \<in> set (incoming (verts ?s' ! w)))"
    proof (cases "i < ?n")
      case True
      have "(\<exists>w<length (verts ?s'). i \<in> set (incoming (verts ?s' ! w)))
          = (\<exists>w<?n. i \<in> set (incoming (verts s ! w)))"
        by (auto simp: nth_append less_Suc_eq)
      with True ok show ?thesis
        by (simp add: nth_append store_ok_def)
    next
      case False
      with i have "i = ?n" by simp
      then show ?thesis
        using inc by (auto simp: nth_append less_Suc_eq)
    qed
  next
    show "distinct (map key (verts ?s'))"
      using ok fresh by (simp add: store_ok_def)
    show "acyclic (edges s)"
      using ok by (simp add: store_ok_def)
  qed
  with va e lk show ?thesis
    by simp
qed

lemma addEdge_result:
  assumes ok: "store_ok s" and v: "v < length (verts s)" and w: "w < length (verts s)"
  shows "(w, v) \<in> (edges s)\<^sup>* \<Longrightarrow> \<exists>p s'. cycle_path s v w p \<and>
           addEdge v w s =
             (Inl (Error (chain_msg (key (verts s ! w)) (map (\<lambda>i. key (verts s ! i)) p))), s') \<and>
           map unflag (verts s') = map unflag (verts s)"
    and "(w, v) \<notin> (edges s)\<^sup>* \<Longrightarrow> \<exists>s'. addEdge v w s = (Inr (), s') \<and> store_ok s' \<and>
           edges s' = insert (v, w) (edges s) \<and> grows s s' \<and>
           length (verts s') = length (verts s)"
proof -
  obtain r0 s0 where c: "check v (key (verts s ! w)) s = (r0, s0)"
    by (cases "check v (key (verts s ! w)) s")
  from check_result(1) [OF ok v w] c have fr: "map unflag (verts s0) = map unflag (verts s)"
    by simp
  {
    assume "(w, v) \<in> (edges s)\<^sup>*"
    from check_result(3) [OF ok v w this] c obtain p where "cycle_path s v w p"
      and "r0 = Inl (Error (chain_msg (key (verts s ! w)) (map (\<lambda>i. key (verts s ! i)) p)))"
      by auto
    with c fr show "\<exists>p s'. cycle_path s v w p \<and>
           addEdge v w s =
             (Inl (Error (chain_msg (key (verts s ! w)) (map (\<lambda>i. key (verts s ! i)) p))), s') \<and>
           map unflag (verts s') = map unflag (verts s)"
      by (auto simp: addEdge_def)
  }
  {
    assume nr: "(w, v) \<notin> (edges s)\<^sup>*"
    from check_result(2) [OF ok v w this] c have r0: "r0 = Inr ()"
      by simp
    note f = unflag_same_fields [OF fr]
    have ok0: "store_ok s0" and e0: "edges s0 = edges s"
      using store_ok_cong [OF fr] edges_cong [OF fr] ok by simp_all
    have g0: "grows s s0"
      by (rule unflag_grows [OF fr])
    have iv: "idx (verts s0 ! v) = v"
      using ok0 v f(1) by (simp add: store_ok_def)
    show "\<exists>s'. addEdge v w s = (Inr (), s') \<and> store_ok s' \<and>
           edges s' = insert (v, w) (edges s) \<and> grows s s' \<and>
           length (verts s') = length (verts s)"
    proof (cases "v \<in> set (incoming (verts s0 ! w))")
      case True
      then have "(v, w) \<in> edges s"
        using w f(1) e0 by (auto simp: edges_def)
      then have "insert (v, w) (edges s) = edges s"
        by auto
      with True c r0 iv ok0 e0 g0 f(1) show ?thesis
        by (simp add: addEdge_def)
    next
      case False
      define vs1 where "vs1 = (verts s0)[w := (verts s0 ! w)\<lparr>incoming := incoming (verts s0 ! w) @ [v]\<rparr>]"
      define vs2 where "vs2 = vs1[v := (vs1 ! v)\<lparr>out := True\<rparr>]"
      define s' where "s' = s0\<lparr>verts := vs2\<rparr>"
      note cf = commit_fields [OF vs1_def vs2_def]
      have l: "length (verts s') = length (verts s0)"
        by (simp add: s'_def vs2_def vs1_def)
      have ae: "addEdge v w s = (Inr (), s')"
        using False c r0 iv by (simp add: addEdge_def Let_def s'_def vs2_def vs1_def)
      have es: "edges s' = insert (v, w) (edges s0)"
        using w f(1) l by (auto simp: edges_def s'_def cf split: if_splits)
      have g: "grows s0 s'"
        using l by (auto simp: grows_def s'_def cf)
      have ac: "acyclic (edges s')"
        using ok0 nr e0 by (simp add: es store_ok_def)
      have "store_ok s'"
        unfolding store_ok_def
      proof (intro conjI allI impI)
        fix i assume i: "i < length (verts s')"
        with l have i0: "i < length (verts s0)" by simp
        note okd = ok0 [unfolded store_ok_def, THEN conjunct1, rule_format, OF i0]
        show "idx (verts s' ! i) = i"
          using okd i0 by (simp add: s'_def cf)
        show "key (verts s' ! i) \<noteq> []"
          using okd i0 by (simp add: s'_def cf)
        show "\<forall>p\<in>set (incoming (verts s' ! i)). p < length (verts s')"
          using okd i0 v f(1) l by (auto simp: s'_def cf)
        have "(\<exists>u<length (verts s'). i \<in> set (incoming (verts s' ! u)))
            = (i = v \<or> (\<exists>u<length (verts s0). i \<in> set (incoming (verts s0 ! u))))"
          using w f(1) l by (auto simp: s'_def cf split: if_splits)
        with okd i0 show "out (verts s' ! i) = (\<exists>u<length (verts s'). i \<in> set (incoming (verts s' ! u)))"
          by (simp add: s'_def cf)
      next
        have "map key (verts s') = map key (verts s0)"
          using l by (simp add: list_eq_iff_nth_eq s'_def cf)
        with ok0 show "distinct (map key (verts s'))"
          by (simp add: store_ok_def)
        show "acyclic (edges s')" by (rule ac)
      qed
      with ae es e0 g g0 l f(1) show ?thesis
        by (auto intro: grows_trans)
    qed
  }
qed

lemma addEdge_ok:
  assumes ok: "store_ok s" and v: "v < length (verts s)" and w: "w < length (verts s)"
    and a: "addEdge v w s = (r, s')"
  shows "store_ok s'" and "length (verts s') = length (verts s)"
proof -
  have "store_ok s' \<and> length (verts s') = length (verts s)"
  proof (cases "(w, v) \<in> (edges s)\<^sup>*")
    case True
    from addEdge_result(1) [OF ok v w True] a
    have fr: "map unflag (verts s') = map unflag (verts s)"
      by auto
    with store_ok_cong [OF fr] unflag_same_fields(1) [OF fr] ok show ?thesis
      by simp
  next
    case False
    from addEdge_result(2) [OF ok v w False] a show ?thesis
      by auto
  qed
  then show "store_ok s'" and "length (verts s') = length (verts s)"
    by simp_all
qed

lemma grows_length: "grows s s' \<Longrightarrow> i < length (verts s) \<Longrightarrow> i < length (verts s')"
  by (simp add: grows_def)

lemma edge_before_ok:
  assumes ok: "store_ok s" and i: "i < length (verts s)" and e: "edge_before i b s = (r, s')"
  shows "store_ok s'"
proof (cases "b = []")
  case True
  with e ok show ?thesis
    by (simp add: edge_before_def Vertices_add_def)
next
  case False
  from Vertices_add_ok [OF ok False] obtain w s1
    where va: "Vertices_add b s = (Inr w, s1)" and ok1: "store_ok s1"
      and w: "w < length (verts s1)"
    by blast
  from grows_length [OF Vertices_add_grows [OF va] i] have i1: "i < length (verts s1)" .
  from e va have "addEdge i w s1 = (r, s')"
    by (simp add: edge_before_def)
  from addEdge_ok(1) [OF ok1 i1 w this] show ?thesis .
qed

lemma edge_after_ok:
  assumes ok: "store_ok s" and i: "i < length (verts s)" and e: "edge_after i b s = (r, s')"
  shows "store_ok s'"
proof (cases "b = []")
  case True
  with e ok show ?thesis
    by (simp add: edge_after_def Vertices_add_def)
next
  case False
  from Vertices_add_ok [OF ok False] obtain w s1
    where va: "Vertices_add b s = (Inr w, s1)" and ok1: "store_ok s1"
      and w: "w < length (verts s1)"
    by blast
  from grows_length [OF Vertices_add_grows [OF va] i] have i1: "i < length (verts s1)" .
  from e va have "addEdge w i s1 = (r, s')"
    by (simp add: edge_after_def)
  from addEdge_ok(1) [OF ok1 w i1 this] show ?thesis .
qed

lemma edges_loop_ok:
  assumes f: "\<forall>b s r s'. store_ok s \<longrightarrow> i < length (verts s) \<longrightarrow> f b s = (r, s') \<longrightarrow> store_ok s'"
    and g: "\<forall>b s r s'. f b s = (r, s') \<longrightarrow> grows s s'"
  shows "store_ok s \<Longrightarrow> i < length (verts s) \<Longrightarrow> edges_loop f bs s = (r, s') \<Longrightarrow> store_ok s'"
proof (induction bs arbitrary: s)
  case Nil
  then show ?case by simp
next
  case (Cons b bs)
  obtain r1 s1 where fb: "f b s = (r1, s1)"
    by (cases "f b s")
  from f Cons.prems(1,2) fb have ok1: "store_ok s1" by blast
  from g fb have "grows s s1" by blast
  from grows_length [OF this Cons.prems(2)] have i1: "i < length (verts s1)" .
  show ?case
  proof (cases r1)
    case (Inl e)
    with Cons.prems(3) fb ok1 show ?thesis by simp
  next
    case (Inr u)
    with Cons.prems(3) fb have "edges_loop f bs s1 = (r, s')" by simp
    from Cons.IH [OF ok1 i1 this] show ?thesis .
  qed
qed

lemma constraints_ok:
  assumes f: "\<forall>b s r s'. store_ok s \<longrightarrow> i < length (verts s) \<longrightarrow> f b s = (r, s') \<longrightarrow> store_ok s'"
    and g: "\<forall>b s r s'. f b s = (r, s') \<longrightarrow> grows s s'"
    and ok: "store_ok s" and i: "i < length (verts s)" and c: "constraints f ks s = (r, s')"
  shows "store_ok s'"
proof (cases ks)
  case Absent
  with c ok show ?thesis by (simp add: constraints_simps)
next
  case (Single b)
  show ?thesis
  proof (cases "b = []")
    case True
    with c ok Single show ?thesis by (simp add: constraints_simps)
  next
    case False
    with c Single have "f b s = (r, s')" by (simp add: constraints_simps)
    with f ok i show ?thesis by blast
  qed
next
  case (Many bs)
  with c have "edges_loop f bs s = (r, s')" by (simp add: constraints_simps)
  from edges_loop_ok [OF f g ok i this] show ?thesis .
qed

lemma DAG_add_ok:
  assumes ok: "store_ok s" and a: "DAG_add k v b a s = (r, s')"
  shows "store_ok s'"
proof (cases "k = []")
  case True
  with a ok show ?thesis by (simp add: DAG_add_def)
next
  case False
  from Vertices_add_ok [OF ok False] obtain i s0
    where va: "Vertices_add k s = (Inr i, s0)" and ok0: "store_ok s0"
      and i: "i < length (verts s0)"
    by blast
  define s1 where "s1 = s0\<lparr>verts := (verts s0)[i := (verts s0 ! i)\<lparr>val := v\<rparr>]\<rparr>"
  have ok1: "store_ok s1" and i1: "i < length (verts s1)"
    using ok0 i by (simp_all add: s1_def assign_ok)
  have fb: "\<forall>b s r s'. store_ok s \<longrightarrow> i < length (verts s) \<longrightarrow> edge_before i b s = (r, s')
      \<longrightarrow> store_ok s'"
    using edge_before_ok by blast
  have gb: "\<forall>b s r s'. edge_before i b s = (r, s') \<longrightarrow> grows s s'"
    using edge_before_grows by blast
  have fa: "\<forall>b s r s'. store_ok s \<longrightarrow> i < length (verts s) \<longrightarrow> edge_after i b s = (r, s')
      \<longrightarrow> store_ok s'"
    using edge_after_ok by blast
  have ga: "\<forall>b s r s'. edge_after i b s = (r, s') \<longrightarrow> grows s s'"
    using edge_after_grows by blast
  obtain r2 s2 where c: "constraints (edge_before i) b s1 = (r2, s2)"
    by (cases "constraints (edge_before i) b s1")
  from constraints_ok [OF fb gb ok1 i1 c] have ok2: "store_ok s2" .
  have i2: "i < length (verts s2)"
    using grows_length [OF constraints_grows [OF edge_before_grows c] i1] .
  show ?thesis
  proof (cases r2)
    case (Inl e)
    with a False va c ok2 show ?thesis
      by (simp add: DAG_add_def s1_def)
  next
    case (Inr u)
    with a False va c have c2: "constraints (edge_after i) a s2 = (r, s')"
      by (simp add: DAG_add_def s1_def)
    from constraints_ok [OF fa ga ok2 i2 c2] show ?thesis .
  qed
qed

lemma unflag_idem: "map unflag (map unflag vs) = map unflag vs"
  by (simp add: comp_def unflag_def)

lemma walk_loop_frame:
  "map unflag (verts (snd (walk_loop is s))) = map unflag (verts s)"
proof (induction "is" arbitrary: s)
  case Nil
  then show ?case by simp
next
  case (Cons i "is")
  obtain r1 s1 where v: "visit i [] s = (r1, s1)"
    by (cases "visit i [] s")
  with visit_frame [of i "[]" s] have "map unflag (verts s1) = map unflag (verts s)"
    by simp
  with Cons.IH [of s1] Cons.IH [of s] v show ?case
    by (cases r1) simp_all
qed

lemma walk_frame: "map unflag (verts (snd (walk s))) = map unflag (verts s)"
proof -
  have "map unflag (verts (snd (walk_loop [0 ..< length (verts s)] (reset s)))) = map unflag (verts s)"
    by (simp add: walk_loop_frame reset_verts unflag_idem)
  then show ?thesis
    by (auto simp: walk_def split: prod.splits sum.splits)
qed

lemma run_ok: "store_ok s \<Longrightarrow> store_ok (run cs s)"
proof (induction cs arbitrary: s)
  case Nil
  then show ?case by simp
next
  case (Cons c cs)
  show ?case
  proof (cases c)
    case (Add k v b a)
    from DAG_add_ok [OF Cons.prems, of k v b a] have "store_ok (snd (DAG_add k v b a s))"
      by (metis prod.collapse)
    from Cons.IH [OF this] Add show ?thesis by simp
  next
    case Each
    from store_ok_cong [OF walk_frame [of s]] Cons.prems have "store_ok (snd (DAG_each s))"
      by (simp add: DAG_each_def)
    from Cons.IH [OF this] Each show ?thesis by simp
  qed
qed

lemma build_ok: "store_ok (build cs)"
  by (simp add: build_def run_ok new_Vertices_ok)

lemma store_bac_verts:
  "verts store_bac =
     [\<lparr>idx = 0, key = ''b'', val = Some 2, out = True, flag = True, incoming = [1]\<rparr>,
      \<lparr>idx = 1, key = ''a'', val = None, out = True, flag = True, incoming = []\<rparr>,
      \<lparr>idx = 2, key = ''c'', val = None, out = False, flag = False, incoming = [0]\<rparr>]"
  by code_simp

lemma store_bac_edges: "(1, 0) \<in> edges store_bac" "(0, 2) \<in> edges store_bac"
  by (simp_all add: edges_def store_bac_verts)

lemma dfs_mono:
  "dfs G u F r F' r' \<Longrightarrow> F \<subseteq> F'"
  "dfs_list G cs F r F' r' \<Longrightarrow> F \<subseteq> F'"
  by (induction rule: dfs_dfs_list.inducts) auto

lemma dfs_seen: "dfs G u F r F' r' \<Longrightarrow> u \<in> F \<Longrightarrow> F' = F \<and> r' = r"
  by (erule dfs.cases) auto

lemma reaches_refl: "at s t F r \<Longrightarrow> stack t = rest \<Longrightarrow> reaches s t rest F r"
  unfolding reaches_def by blast

lemma reaches_trans:
  assumes "visit_loop [] t = visit_loop [] t1" and "path t1 = path t"
    and "reaches s t1 rest F r"
  shows "reaches s t rest F r"
  using assms unfolding reaches_def by auto

lemma flags_stack [simp]: "flags (t\<lparr>stack := st\<rparr>) = flags t"
  by (simp add: flags_def)

lemma at_same:
  assumes "at s t F r"
  shows "length (verts t) = length (verts s)"
    and "i < length (verts s) \<Longrightarrow> key (verts t ! i) = key (verts s ! i)"
    and "i < length (verts s) \<Longrightarrow> incoming (verts t ! i) = incoming (verts s ! i)"
    and "i < length (verts s) \<Longrightarrow> flag (verts t ! i) \<longleftrightarrow> i \<in> F"
  using assms unflag_same_fields [of "verts t" "verts s"]
  by (auto simp: at_def flags_def)

lemma store_ok_key:
  "store_ok s \<Longrightarrow> i < length (verts s) \<Longrightarrow> key (verts s ! i) \<noteq> [] \<and> idx (verts s ! i) = i"
  by (simp add: store_ok_def)

lemma step_flagged:
  assumes a: "at s t F r" and st: "stack t = int u # rest" and u: "u < length (verts s)"
    and uf: "u \<in> F"
  shows "visit_loop [] t = visit_loop [] (t\<lparr>stack := rest\<rparr>)"
proof -
  have "visit_body [] (int u) (t\<lparr>stack := rest\<rparr>) = Continue (t\<lparr>stack := rest\<rparr>)"
    using at_same [OF a] u uf by (simp add: visit_body_flagged)
  with st show ?thesis
    by (simp add: visit_loop.simps [of "[]" t])
qed

lemma step_enter:
  assumes ok: "store_ok s" and a: "at s t F r" and st: "stack t = int u # rest"
    and u: "u < length (verts s)" and uf: "u \<notin> F"
    and t1: "t1 = t\<lparr>verts := (verts t)[u := (verts t ! u)\<lparr>flag := True\<rparr>],
                   path := int u # path t,
                   stack := map int (filter (\<lambda>c. c \<notin> insert u F) (preds s u)) @ NOT (int u) # rest\<rparr>"
  shows "visit_loop [] t = visit_loop [] t1" and "at s t1 (insert u F) r"
proof -
  note same = at_same [OF a]
  let ?vs' = "(verts t)[u := (verts t ! u)\<lparr>flag := True\<rparr>]"
  have k: "[] \<noteq> key (verts t ! u)"
    using store_ok_key [OF ok u] same(2) [OF u] by auto
  have rng: "\<forall>p \<in> set (incoming (verts t ! u)). p < length (verts t)"
    using store_ok_incoming [OF ok u] same(1) same(3) [OF u] by simp
  have fl: "(\<not> flag (?vs' ! c)) = (c \<notin> insert u F)" if "c \<in> set (incoming (verts t ! u))" for c
  proof -
    from that rng have c: "c < length (verts t)" by simp
    with same(4) [of c] same(1) show ?thesis
      by (simp add: flag_update_nth)
  qed
  have fe: "filter (\<lambda>p. \<not> flag (?vs' ! p)) (incoming (verts t ! u))
      = filter (\<lambda>c. c \<notin> insert u F) (preds s u)"
    using fl same(3) [OF u] by (simp add: preds_def cong: filter_cong)
  have "visit_body [] (int u) (t\<lparr>stack := rest\<rparr>) = Continue t1"
    using visit_body_enter [of "int u" "t\<lparr>stack := rest\<rparr>" "[]"] u uf same(1) same(4) [OF u] k rng
    by (simp add: t1 fe)
  with st show "visit_loop [] t = visit_loop [] t1"
    by (simp add: visit_loop.simps [of "[]" t])
  have "flags t1 = insert u F"
    using u same(1) a by (auto simp: at_def flags_def t1 flag_update_nth)
  with a show "at s t1 (insert u F) r"
    by (simp add: at_def t1 unflag_update)
qed

lemma step_exit:
  assumes a: "at s t F r" and st: "stack t = NOT (int u) # rest" and p: "path t = x # p"
    and t1: "t1 = t\<lparr>stack := rest, path := p, result := int u # result t\<rparr>"
  shows "visit_loop [] t = visit_loop [] t1" and "at s t1 F (r @ [u])"
proof -
  have "visit_body [] (NOT (int u)) (t\<lparr>stack := rest\<rparr>) = Continue t1"
    using visit_body_exit [of "NOT (int u)" "t\<lparr>stack := rest\<rparr>" x p "[]"] p
    by (simp add: t1 not_int_def)
  with st show "visit_loop [] t = visit_loop [] t1"
    by (simp add: visit_loop.simps [of "[]" t])
  from a show "at s t1 F (r @ [u])"
    by (simp add: at_def t1 flags_def)
qed

lemma dfs_reaches:
  assumes ok: "store_ok s"
  shows "dfs (preds s) u F r F' r' \<Longrightarrow> u < length (verts s) \<Longrightarrow> at s t F r \<Longrightarrow>
           stack t = int u # rest \<Longrightarrow> reaches s t rest F' r'"
    and "dfs_list (preds s) cs F r F' r' \<Longrightarrow> \<forall>c \<in> set cs. c < length (verts s) \<Longrightarrow>
           at s t F r \<Longrightarrow> F0 \<subseteq> F \<Longrightarrow>
           stack t = map int (filter (\<lambda>c. c \<notin> F0) cs) @ rest \<Longrightarrow> reaches s t rest F' r'"
proof (induction arbitrary: t rest and t rest F0 rule: dfs_dfs_list.inducts)
  case (seen u F r)
  from step_flagged [OF seen(3,4,2,1)]
  have "visit_loop [] t = visit_loop [] (t\<lparr>stack := rest\<rparr>)" .
  moreover have "at s (t\<lparr>stack := rest\<rparr>) F r"
    using seen(3) by (simp add: at_def)
  ultimately show ?case
    unfolding reaches_def by (intro exI [of _ "t\<lparr>stack := rest\<rparr>"]) simp
next
  case (fresh u F r F' r')
  define t1 where "t1 = t\<lparr>verts := (verts t)[u := (verts t ! u)\<lparr>flag := True\<rparr>],
                   path := int u # path t,
                   stack := map int (filter (\<lambda>c. c \<notin> insert u F) (preds s u)) @ NOT (int u) # rest\<rparr>"
  note e = step_enter [OF ok fresh.prems(2,3,1) fresh.hyps(1) t1_def]
  have rng: "\<forall>c \<in> set (preds s u). c < length (verts s)"
    using store_ok_incoming [OF ok fresh.prems(1)] by (simp add: preds_def)
  have st1: "stack t1 = map int (filter (\<lambda>c. c \<notin> insert u F) (preds s u)) @ NOT (int u) # rest"
    by (simp add: t1_def)
  from fresh.IH(2) [OF rng e(2) subset_refl st1]
  obtain t2 where l2: "visit_loop [] t1 = visit_loop [] t2" and a2: "at s t2 F' r'"
    and st2: "stack t2 = NOT (int u) # rest" and p2: "path t2 = int u # path t"
    unfolding reaches_def by (auto simp: t1_def)
  define t3 where "t3 = t2\<lparr>stack := rest, path := path t, result := int u # result t2\<rparr>"
  note x = step_exit [OF a2 st2 p2 t3_def]
  have "stack t3 = rest" and "path t3 = path t"
    by (simp_all add: t3_def)
  with e(1) l2 x show ?case
    unfolding reaches_def by (intro exI [of _ t3]) simp
next
  case (nil F r)
  then show ?case
    by (simp add: reaches_refl)
next
  case (cons c F r F1 r1 cs F' r')
  from cons.prems(1) have c: "c < length (verts s)" and cs: "\<forall>c \<in> set cs. c < length (verts s)"
    by simp_all
  show ?case
  proof (cases "c \<in> F0")
    case True
    with cons.prems(3) have "c \<in> F" by blast
    from dfs_seen [OF cons.IH(1) this] have same: "F1 = F" "r1 = r"
      by simp_all
    from True cons.prems(4) have "stack t = map int (filter (\<lambda>c. c \<notin> F0) cs) @ rest"
      by simp
    from cons.IH(4) [OF cs cons.prems(2) [folded same] cons.prems(3) [folded same(1)] this]
    show ?thesis .
  next
    case False
    with cons.prems(4)
    have st: "stack t = int c # map int (filter (\<lambda>c. c \<notin> F0) cs) @ rest"
      by simp
    from cons.IH(2) [OF c cons.prems(2) st]
    obtain t1 where l1: "visit_loop [] t = visit_loop [] t1" and a1: "at s t1 F1 r1"
      and st1: "stack t1 = map int (filter (\<lambda>c. c \<notin> F0) cs) @ rest" and p1: "path t1 = path t"
      unfolding reaches_def by blast
    from dfs_mono(1) [OF cons.IH(1)] cons.prems(3) have "F0 \<subseteq> F1"
      by blast
    from cons.IH(4) [OF cs a1 this st1] have "reaches s t1 rest F' r'" .
    from reaches_trans [OF l1 p1 this] show ?thesis .
  qed
qed

lemma dfs_total:
  assumes rng: "\<forall>i<n. \<forall>c \<in> set (G i). c < n"
  shows "u < n \<Longrightarrow> \<exists>F' r'. dfs G u F r F' r'"
proof (induction "card ({..<n} - F)" arbitrary: u F r rule: less_induct)
  case less
  show ?case
  proof (cases "u \<in> F")
    case True
    then show ?thesis by (blast intro: dfs_dfs_list.seen)
  next
    case False
    have smaller: "card ({..<n} - insert u F) < card ({..<n} - F)"
    proof (rule psubset_card_mono)
      show "finite ({..<n} - F)" by simp
      show "{..<n} - insert u F \<subset> {..<n} - F"
        using False less.prems by auto
    qed
    have list: "\<exists>F' r'. dfs_list G cs F1 r1 F' r'"
      if "\<forall>c \<in> set cs. c < n" and "card ({..<n} - F1) < card ({..<n} - F)" for cs F1 r1
      using that
    proof (induction cs arbitrary: F1 r1)
      case Nil
      show ?case by (blast intro: dfs_dfs_list.nil)
    next
      case (Cons c cs)
      from Cons.prems(1) have c: "c < n" by simp
      from less.hyps [OF Cons.prems(2) c] obtain F2 r2 where d: "dfs G c F1 r1 F2 r2"
        by blast
      from dfs_mono(1) [OF d] have "card ({..<n} - F2) \<le> card ({..<n} - F1)"
        by (intro card_mono) auto
      with Cons.prems(2) have "card ({..<n} - F2) < card ({..<n} - F)"
        by simp
      with Cons.IH [of F2 r2] Cons.prems(1) obtain F' r' where "dfs_list G cs F2 r2 F' r'"
        by auto
      with d show ?case by (blast intro: dfs_dfs_list.cons)
    qed
    from rng less.prems have "\<forall>c \<in> set (G u). c < n" by simp
    from list [OF this smaller] obtain F' r' where "dfs_list G (G u) (insert u F) r F' r'"
      by blast
    with False show ?thesis by (blast intro: dfs_dfs_list.fresh)
  qed
qed

lemma dfs_emits:
  "dfs G u F r F' r' \<Longrightarrow>
     u \<in> F' \<and> (\<exists>new. r' = r @ new \<and> F' = F \<union> set new \<and> distinct new \<and> set new \<inter> F = {})"
  "dfs_list G cs F r F' r' \<Longrightarrow>
     set cs \<subseteq> F' \<and> (\<exists>new. r' = r @ new \<and> F' = F \<union> set new \<and> distinct new \<and> set new \<inter> F = {})"
proof (induction rule: dfs_dfs_list.inducts)
  case (seen u F r)
  then show ?case by simp
next
  case (fresh u F r F' r')
  then obtain new where n: "r' = r @ new" "F' = insert u F \<union> set new" "distinct new"
    "set new \<inter> insert u F = {}"
    by blast
  have "r' @ [u] = r @ (new @ [u]) \<and> F' = F \<union> set (new @ [u]) \<and> distinct (new @ [u])
      \<and> set (new @ [u]) \<inter> F = {}"
    using n fresh.hyps by auto
  moreover have "u \<in> F'" using n by simp
  ultimately show ?case by blast
next
  case (nil F r)
  then show ?case by simp
next
  case (cons c F r F1 r1 cs F' r')
  then obtain n1 n2 where n1: "r1 = r @ n1" "F1 = F \<union> set n1" "distinct n1" "set n1 \<inter> F = {}"
    and n2: "r' = r1 @ n2" "F' = F1 \<union> set n2" "distinct n2" "set n2 \<inter> F1 = {}"
    and c: "c \<in> F1" and cs: "set cs \<subseteq> F'"
    by blast
  have "r' = r @ (n1 @ n2) \<and> F' = F \<union> set (n1 @ n2) \<and> distinct (n1 @ n2)
      \<and> set (n1 @ n2) \<inter> F = {}"
    using n1 n2 by auto
  moreover have "set (c # cs) \<subseteq> F'" using c cs n2 by auto
  ultimately show ?case by blast
qed

lemma topo_Nil: "topo G []"
  by (simp add: topo_def)

lemma topo_snoc: "topo G r \<Longrightarrow> set (G u) \<subseteq> set r \<Longrightarrow> topo G (r @ [u])"
  by (auto simp: topo_def nth_append less_Suc_eq)

lemma topo_closed: "topo G r \<Longrightarrow> x \<in> set r \<Longrightarrow> set (G x) \<subseteq> set r"
  unfolding topo_def by (metis in_set_conv_nth in_set_takeD subset_iff)

lemma dfs_topo:
  assumes ac: "acyclic E" and ed: "\<forall>x<n. \<forall>c \<in> set (G x). c < n \<and> (c, x) \<in> E"
  shows "dfs G u F r F' r' \<Longrightarrow> u < n \<Longrightarrow> F = P \<union> set r \<Longrightarrow> topo G r \<Longrightarrow>
           \<forall>p \<in> P. (u, p) \<in> E\<^sup>+ \<Longrightarrow>
           F' = P \<union> set r' \<and> topo G r' \<and> u \<in> set r' \<and> set r \<subseteq> set r'"
    and "dfs_list G cs F r F' r' \<Longrightarrow> \<forall>c \<in> set cs. c < n \<Longrightarrow> F = P \<union> set r \<Longrightarrow> topo G r \<Longrightarrow>
           \<forall>c \<in> set cs. \<forall>p \<in> P. (c, p) \<in> E\<^sup>+ \<Longrightarrow>
           F' = P \<union> set r' \<and> topo G r' \<and> set cs \<subseteq> set r' \<and> set r \<subseteq> set r'"
proof (induction arbitrary: P and P rule: dfs_dfs_list.inducts)
  case (seen u F r)
  have "u \<notin> P"
  proof
    assume "u \<in> P"
    with seen.prems(4) have "(u, u) \<in> E\<^sup>+" by blast
    with ac show False by (simp add: acyclic_def)
  qed
  with seen show ?case by auto
next
  case (fresh u F r F' r')
  have ch: "\<forall>c \<in> set (G u). c < n" and che: "\<forall>c \<in> set (G u). (c, u) \<in> E"
    using ed fresh.prems(1) by auto
  have up: "\<forall>c \<in> set (G u). \<forall>p \<in> insert u P. (c, p) \<in> E\<^sup>+"
  proof (intro ballI)
    fix c p assume c: "c \<in> set (G u)" and p: "p \<in> insert u P"
    from che c have cu: "(c, u) \<in> E" by blast
    show "(c, p) \<in> E\<^sup>+"
    proof (cases "p = u")
      case True
      with cu show ?thesis by blast
    next
      case False
      with p fresh.prems(4) have "(u, p) \<in> E\<^sup>+" by blast
      with cu show ?thesis by (rule trancl_into_trancl2)
    qed
  qed
  have "insert u F = insert u P \<union> set r"
    using fresh.prems(2) by auto
  from fresh.IH(2) [OF ch this fresh.prems(3) up]
  have F': "F' = insert u P \<union> set r'" and t: "topo G r'" and g: "set (G u) \<subseteq> set r'"
    and m: "set r \<subseteq> set r'"
    by simp_all
  from topo_snoc [OF t g] F' m show ?case
    by auto
next
  case (nil F r)
  then show ?case by simp
next
  case (cons c F r F1 r1 cs F' r')
  from cons.prems(1,4) have c: "c < n" and cp: "\<forall>p \<in> P. (c, p) \<in> E\<^sup>+"
    and cs: "\<forall>c \<in> set cs. c < n" and csp: "\<forall>c \<in> set cs. \<forall>p \<in> P. (c, p) \<in> E\<^sup>+"
    by simp_all
  from cons.IH(2) [OF c cons.prems(2,3) cp]
  have 1: "F1 = P \<union> set r1" "topo G r1" "c \<in> set r1" "set r \<subseteq> set r1"
    by simp_all
  from cons.IH(4) [OF cs 1(1,2) csp]
  have 2: "F' = P \<union> set r'" "topo G r'" "set cs \<subseteq> set r'" "set r1 \<subseteq> set r'"
    by simp_all
  from 1 2 show ?case by auto
qed

lemma visit_loop_done: "stack t = [] \<Longrightarrow> visit_loop search t = (Inr (), t)"
  by (simp add: visit_loop.simps [of search t])

lemma preds_range:
  "store_ok s \<Longrightarrow> \<forall>i<length (verts s). \<forall>c \<in> set (preds s i). c < length (verts s)"
  using store_ok_incoming by (auto simp: preds_def)

lemma walk_loop_reaches:
  assumes ok: "store_ok s"
  shows "\<forall>i \<in> set is. i < length (verts s) \<Longrightarrow> at s t F r \<Longrightarrow> stack t = [] \<Longrightarrow>
     \<exists>F' r' t'. dfs_list (preds s) (filter (\<lambda>i. \<not> out (verts s ! i)) is) F r F' r' \<and>
        walk_loop is t = (Inr (), t') \<and> at s t' F' r' \<and> stack t' = []"
proof (induction "is" arbitrary: t F r)
  case Nil
  then show ?case
    by (auto intro: dfs_dfs_list.nil)
next
  case (Cons i "is")
  from Cons.prems(1) have i: "i < length (verts s)" and rest: "\<forall>i \<in> set is. i < length (verts s)"
    by simp_all
  from Cons.prems(2) have fr: "map unflag (verts t) = map unflag (verts s)"
    by (simp add: at_def)
  note f = unflag_same_fields [OF fr]
  have o: "out (verts t ! i) = out (verts s ! i)" and ix: "idx (verts t ! i) = i"
    using f(2) [OF i] store_ok_key [OF ok i] by simp_all
  show ?case
  proof (cases "out (verts s ! i)")
    case True
    with Cons.IH [OF rest Cons.prems(2,3)] o show ?thesis
      by simp
  next
    case False
    from dfs_total [OF preds_range [OF ok] i] obtain F1 r1
      where d: "dfs (preds s) i F r F1 r1"
      by blast
    let ?t0 = "t\<lparr>stack := int i # stack t\<rparr>"
    have a0: "at s ?t0 F r"
      using Cons.prems(2) by (simp add: at_def)
    have "stack ?t0 = int i # []"
      using Cons.prems(3) by simp
    from dfs_reaches(1) [OF ok d i a0 this] obtain t1
      where l: "visit_loop [] ?t0 = visit_loop [] t1" and a1: "at s t1 F1 r1"
        and s1: "stack t1 = []"
      unfolding reaches_def by blast
    have v: "visit i [] t = (Inr (), t1)"
      using l visit_loop_done [OF s1] by (simp add: visit_def ix)
    from Cons.IH [OF rest a1 s1] obtain F' r' t'
      where d': "dfs_list (preds s) (filter (\<lambda>i. \<not> out (verts s ! i)) is) F1 r1 F' r'"
        and w: "walk_loop is t1 = (Inr (), t')" and a': "at s t' F' r'" and s': "stack t' = []"
      by blast
    from d d' False have "dfs_list (preds s) (filter (\<lambda>i. \<not> out (verts s ! i)) (i # is)) F r F' r'"
      by (auto intro: dfs_dfs_list.cons)
    moreover have "walk_loop (i # is) t = (Inr (), t')"
      using False o v w by simp
    ultimately show ?thesis
      using a' s' by blast
  qed
qed

lemma walk_result:
  assumes ok: "store_ok s"
  shows "\<exists>order t'. walk_order s order \<and> walk s = (Inr (calls_of s order), t') \<and>
           map unflag (verts t') = map unflag (verts s) \<and>
           (\<forall>i \<in> set order. i < length (verts s))"
proof -
  have a: "at s (reset s) {} []"
    by (simp add: at_def reset_verts unflag_idem flags_def)
  have "\<forall>i \<in> set [0 ..< length (verts s)]. i < length (verts s)"
    by simp
  from walk_loop_reaches [OF ok this a] obtain F order t'
    where d: "dfs_list (preds s) (roots s) {} [] F order"
      and w: "walk_loop [0 ..< length (verts s)] (reset s) = (Inr (), t')"
      and a': "at s t' F order"
    unfolding roots_def by auto
  from a' have fr: "map unflag (verts t') = map unflag (verts s)"
    and res: "result t' = rev (map int order)" and fl: "flags t' = F"
    by (simp_all add: at_def)
  note f = unflag_same_fields [OF fr]
  from dfs_emits(2) [OF d] have "F = set order" by auto
  with fl have rng: "\<forall>i \<in> set order. i < length (verts s)"
    using f(1) by (auto simp: flags_def)
  have "each_loop (verts t') (map int order) =
      Inr (map (\<lambda>x. (key (verts t' ! nat x), val (verts t' ! nat x))) (map int order))"
    by (rule each_loop_in_range) (use rng f(1) in auto)
  also have "map (\<lambda>x. (key (verts t' ! nat x), val (verts t' ! nat x))) (map int order)
      = calls_of s order"
    using rng f(2) by (simp add: calls_of_def)
  finally have "Vertices_each (result t') t' = Inr (calls_of s order)"
    by (simp add: Vertices_each_def res)
  with w have "walk s = (Inr (calls_of s order), t')"
    by (simp add: walk_def)
  with d fr rng show ?thesis
    unfolding walk_order_def by blast
qed

lemma edges_finite: "store_ok s \<Longrightarrow> finite (edges s)"
proof -
  assume ok: "store_ok s"
  have "edges s \<subseteq> {..<length (verts s)} \<times> {..<length (verts s)}"
    using store_ok_incoming [OF ok] by (auto simp: edges_def)
  then show ?thesis
    by (rule finite_subset) simp
qed

lemma reaches_root:
  assumes ok: "store_ok s"
  shows "i < length (verts s) \<Longrightarrow>
     \<exists>r < length (verts s). \<not> out (verts s ! r) \<and> (i, r) \<in> (edges s)\<^sup>*"
proof -
  have "wf ((edges s)\<inverse>)"
    using ok edges_finite [OF ok] by (simp add: finite_acyclic_wf_converse store_ok_def)
  then show "i < length (verts s) \<Longrightarrow>
     \<exists>r < length (verts s). \<not> out (verts s ! r) \<and> (i, r) \<in> (edges s)\<^sup>*"
  proof (induction i rule: wf_induct_rule)
    case (less i)
    show ?case
    proof (cases "out (verts s ! i)")
      case False
      with less.prems show ?thesis by blast
    next
      case True
      with ok less.prems obtain w where w: "w < length (verts s)"
        and iw: "i \<in> set (incoming (verts s ! w))"
        by (auto simp: store_ok_def)
      then have e: "(i, w) \<in> edges s"
        by (simp add: edges_def)
      then have "(w, i) \<in> (edges s)\<inverse>" by simp
      from less.IH [OF this w] obtain r where "r < length (verts s)" "\<not> out (verts s ! r)"
        "(w, r) \<in> (edges s)\<^sup>*"
        by blast
      with e show ?thesis
        by (meson converse_rtrancl_into_rtrancl)
    qed
  qed
qed

lemma dfs_range:
  assumes rng: "\<forall>i<n. \<forall>c \<in> set (G i). c < n"
  shows "dfs G u F r F' r' \<Longrightarrow> u < n \<Longrightarrow> F \<subseteq> {..<n} \<Longrightarrow> F' \<subseteq> {..<n}"
    and "dfs_list G cs F r F' r' \<Longrightarrow> \<forall>c \<in> set cs. c < n \<Longrightarrow> F \<subseteq> {..<n} \<Longrightarrow> F' \<subseteq> {..<n}"
proof (induction rule: dfs_dfs_list.inducts)
  case (fresh u F r F' r')
  from rng fresh.prems(1) have "\<forall>c \<in> set (G u). c < n" by simp
  from fresh.IH(2) [OF this] fresh.prems show ?case by simp
qed simp_all

lemma walk_order_facts:
  assumes ok: "store_ok s" and w: "walk_order s order"
  shows "distinct order" and "set order = {..<length (verts s)}" and "topo (preds s) order"
proof -
  from w obtain F where d: "dfs_list (preds s) (roots s) {} [] F order"
    unfolding walk_order_def by blast
  from dfs_emits(2) [OF d] show dist: "distinct order"
    by auto
  have ac: "acyclic (edges s)"
    using ok by (simp add: store_ok_def)
  have ed: "\<forall>x<length (verts s). \<forall>c \<in> set (preds s x). c < length (verts s) \<and> (c, x) \<in> edges s"
    using store_ok_incoming [OF ok] by (simp add: preds_def)
  have rt: "\<forall>c \<in> set (roots s). c < length (verts s)"
    by (simp add: roots_def)
  from dfs_topo(2) [OF ac ed d rt, of "{}"]
  have tp: "topo (preds s) order" and rs: "set (roots s) \<subseteq> set order" and F: "F = set order"
    by (simp_all add: topo_Nil)
  show "topo (preds s) order" by (rule tp)
  have sub: "set order \<subseteq> {..<length (verts s)}"
    using dfs_range(2) [OF preds_range [OF ok] d rt] F by simp
  show "set order = {..<length (verts s)}"
  proof
    show "set order \<subseteq> {..<length (verts s)}" by (rule sub)
    show "{..<length (verts s)} \<subseteq> set order"
    proof
      fix i assume "i \<in> {..<length (verts s)}"
      then have i: "i < length (verts s)" by simp
      from reaches_root [OF ok i] obtain r where r: "r < length (verts s)"
        "\<not> out (verts s ! r)" and ir: "(i, r) \<in> (edges s)\<^sup>*"
        by blast
      from r have "r \<in> set (roots s)" by (simp add: roots_def)
      with rs have r_in: "r \<in> set order" by blast
      have "i < length (verts s) \<and> i \<in> set order"
      proof (rule closed_reach [where F = "\<lambda>u. u \<in> set order" and n = "length (verts s)"
            and E = "edges s" and v = r, OF _ r(1) r_in ir])
        fix u c assume u: "u < length (verts s)" "u \<in> set order" and cu: "(c, u) \<in> edges s"
        from cu have "c \<in> set (preds s u)" by (simp add: edges_def preds_def)
        with topo_closed [OF tp u(2)] store_ok_incoming [OF ok u(1), of c] cu
        show "c < length (verts s) \<and> c \<in> set order"
          by (auto simp: edges_def)
      qed
      then show "i \<in> set order" by simp
    qed
  qed
qed

lemma calls_keys_distinct:
  assumes ok: "store_ok s" and d: "distinct order" and r: "set order \<subseteq> {..<length (verts s)}"
  shows "distinct (map fst (calls_of s order))"
proof -
  have "inj_on (\<lambda>i. key (verts s ! i)) (set order)"
    using store_ok_key_inj [OF ok] r by (auto simp: inj_on_def)
  with d have "distinct (map (\<lambda>i. key (verts s ! i)) order)"
    by (simp add: distinct_map)
  then show ?thesis
    by (simp add: calls_of_def comp_def)
qed

lemma topo_before:
  assumes t: "topo G order" and w: "w \<in> set order" and p: "p \<in> set (G w)"
  shows "\<exists>i j. i < j \<and> j < length order \<and> order ! i = p \<and> order ! j = w"
proof -
  from w obtain j where j: "j < length order" "order ! j = w"
    by (auto simp: in_set_conv_nth)
  with t p have "p \<in> set (take j order)"
    by (auto simp: topo_def)
  then obtain i where "i < length (take j order)" "take j order ! i = p"
    by (auto simp: in_set_conv_nth)
  with j show ?thesis
    by (intro exI [of _ i] exI [of _ j]) simp
qed

lemma dfs_unique:
  "dfs G u F r F1 r1 \<Longrightarrow> dfs G u F r F2 r2 \<Longrightarrow> F2 = F1 \<and> r2 = r1"
  "dfs_list G cs F r F1 r1 \<Longrightarrow> dfs_list G cs F r F2 r2 \<Longrightarrow> F2 = F1 \<and> r2 = r1"
proof (induction arbitrary: F2 r2 and F2 r2 rule: dfs_dfs_list.inducts)
  case (seen u F r)
  from dfs_seen [OF seen(2,1)] show ?case by simp
next
  case (fresh u F r F' r')
  from fresh.prems fresh.hyps obtain ra
    where "r2 = ra @ [u]" and "dfs_list G (G u) (insert u F) r F2 ra"
    by (auto elim: dfs_cases)
  with fresh.IH(2) show ?case by blast
next
  case (nil F r)
  then show ?case by (auto elim: dfs_list_nil_cases)
next
  case (cons c F r F1 r1 cs F' r')
  from cons.prems obtain Fa ra where a: "dfs G c F r Fa ra" and b: "dfs_list G cs Fa ra F2 r2"
    by (auto elim: dfs_list_cons_cases)
  from cons.IH(2) [OF a] have "Fa = F1" "ra = r1" by simp_all
  with b cons.IH(4) show ?case by blast
qed

lemma walk_order_unique:
  "walk_order s order \<Longrightarrow> walk_order s order' \<Longrightarrow> order' = order"
  unfolding walk_order_def using dfs_unique(2) by blast

lemma same_graph_refl: "same_graph s s"
  by (simp add: same_graph_def)

lemma same_graph_sym: "same_graph s s' \<Longrightarrow> same_graph s' s"
  by (simp add: same_graph_def)

lemma same_graph_trans: "same_graph s t \<Longrightarrow> same_graph t u \<Longrightarrow> same_graph s u"
  by (simp add: same_graph_def)

lemma same_graph_fields:
  assumes "same_graph s s'"
  shows "length (verts s) = length (verts s')"
    and "i < length (verts s) \<Longrightarrow> idx (verts s ! i) = idx (verts s' ! i)"
    and "i < length (verts s) \<Longrightarrow> key (verts s ! i) = key (verts s' ! i)"
    and "i < length (verts s) \<Longrightarrow> val (verts s ! i) = val (verts s' ! i)"
    and "i < length (verts s) \<Longrightarrow> out (verts s ! i) = out (verts s' ! i)"
    and "i < length (verts s) \<Longrightarrow> incoming (verts s ! i) = incoming (verts s' ! i)"
  using unflag_same_fields [of "verts s" "verts s'"] assms
  by (simp_all add: same_graph_def)

lemma reset_cong: "same_graph s s' \<Longrightarrow> reset s = reset s'"
proof -
  assume sg: "same_graph s s'"
  have "reset s = s\<lparr>stack := [], path := [], result := [], verts := map unflag (verts s)\<rparr>"
    and "reset s' = s'\<lparr>stack := [], path := [], result := [], verts := map unflag (verts s')\<rparr>"
    by (simp_all add: reset_def unflag_def)
  with sg show ?thesis
    by (cases s; cases s') (simp add: same_graph_def)
qed

lemma walk_cong: "same_graph s s' \<Longrightarrow> walk s = walk s'"
  using reset_cong [of s s'] same_graph_fields(1) [of s s']
  by (simp add: walk_def)

lemma walk_same_graph: "same_graph (snd (walk s)) s"
  by (simp add: same_graph_def walk_frame)

lemma lookup_unflag: "lookup k (map unflag vs) = lookup k vs"
  by (induction vs) simp_all

lemma lookup_cong: "same_graph s s' \<Longrightarrow> lookup k (verts s) = lookup k (verts s')"
  by (metis lookup_unflag same_graph_def)

lemma shallow_unflag: "shallow (map unflag vs) vkey w ps = shallow vs vkey w ps"
  by (induction ps) simp_all

lemma shallow_cong:
  "same_graph s s' \<Longrightarrow> shallow (verts s) vkey w ps = shallow (verts s') vkey w ps"
  by (metis shallow_unflag same_graph_def)

lemma Vertices_add_cong:
  assumes sg: "same_graph s s'"
  shows "fst (Vertices_add k s) = fst (Vertices_add k s')"
    and "same_graph (snd (Vertices_add k s)) (snd (Vertices_add k s'))"
  using sg lookup_cong [OF sg, of k] same_graph_fields(1) [OF sg]
  by (auto simp: Vertices_add_def Let_def same_graph_def unflag_def split: option.splits)

lemma check_same_graph: "same_graph (snd (check v w s)) s"
  by (simp add: same_graph_def check_frame)

lemma check_cong:
  assumes sg: "same_graph s s'" and v: "v < length (verts s)"
  shows "fst (check v w s) = fst (check v w s')"
proof -
  note f = same_graph_fields [OF sg]
  have k: "key (verts s ! v) = key (verts s' ! v)"
    and n: "incoming (verts s ! v) = incoming (verts s' ! v)"
    using f(3,6) v by simp_all
  show ?thesis
    unfolding check_def k n shallow_cong [OF sg] reset_cong [OF sg]
    by (simp split: option.splits prod.splits sum.splits)
qed

lemma unflag_eq_iff:
  "unflag x = unflag y \<longleftrightarrow>
     idx x = idx y \<and> key x = key y \<and> val x = val y \<and> out x = out y \<and> incoming x = incoming y"
  by (cases x; cases y) (auto simp: unflag_def)

lemma same_graphI:
  assumes "length (verts s) = length (verts s')"
    and "\<And>i. i < length (verts s) \<Longrightarrow>
        idx (verts s ! i) = idx (verts s' ! i) \<and> key (verts s ! i) = key (verts s' ! i) \<and>
        val (verts s ! i) = val (verts s' ! i) \<and> out (verts s ! i) = out (verts s' ! i) \<and>
        incoming (verts s ! i) = incoming (verts s' ! i)"
  shows "same_graph s s'"
  using assms by (simp add: same_graph_def list_eq_iff_nth_eq unflag_eq_iff)

lemma assign_cong:
  assumes sg: "same_graph s s'"
  shows "same_graph (s\<lparr>verts := (verts s)[i := (verts s ! i)\<lparr>val := v\<rparr>]\<rparr>)
                    (s'\<lparr>verts := (verts s')[i := (verts s' ! i)\<lparr>val := v\<rparr>]\<rparr>)"
proof (rule same_graphI)
  note f = same_graph_fields [OF sg]
  show "length (verts (s\<lparr>verts := (verts s)[i := (verts s ! i)\<lparr>val := v\<rparr>]\<rparr>))
      = length (verts (s'\<lparr>verts := (verts s')[i := (verts s' ! i)\<lparr>val := v\<rparr>]\<rparr>))"
    using f(1) by simp
  fix j assume "j < length (verts (s\<lparr>verts := (verts s)[i := (verts s ! i)\<lparr>val := v\<rparr>]\<rparr>))"
  then have j: "j < length (verts s)" "j < length (verts s')"
    using f(1) by simp_all
  let ?a = "verts (s\<lparr>verts := (verts s)[i := (verts s ! i)\<lparr>val := v\<rparr>]\<rparr>) ! j"
  let ?b = "verts (s'\<lparr>verts := (verts s')[i := (verts s' ! i)\<lparr>val := v\<rparr>]\<rparr>) ! j"
  show "idx ?a = idx ?b \<and> key ?a = key ?b \<and> val ?a = val ?b \<and> out ?a = out ?b \<and>
      incoming ?a = incoming ?b"
    using j f(2-6) [of j] by (cases "j = i") simp_all
qed

lemma Vertices_add_range: "Vertices_add k s = (Inr i, s') \<Longrightarrow> i < length (verts s')"
  by (auto simp: Vertices_add_def Let_def split: if_splits option.splits dest: lookup_Some)

lemma addEdge_cong:
  assumes sg: "same_graph s s'" and v: "v < length (verts s)" and w: "w < length (verts s)"
  shows "fst (addEdge v w s) = fst (addEdge v w s') \<and>
         same_graph (snd (addEdge v w s)) (snd (addEdge v w s'))"
proof -
  note f = same_graph_fields [OF sg]
  have kw: "key (verts s ! w) = key (verts s' ! w)"
    using f(3) w by simp
  obtain r0 s0 where c: "check v (key (verts s ! w)) s = (r0, s0)"
    by (cases "check v (key (verts s ! w)) s")
  obtain r0' s0' where c': "check v (key (verts s' ! w)) s' = (r0', s0')"
    by (cases "check v (key (verts s' ! w)) s'")
  from check_cong [OF sg v, of "key (verts s ! w)"] c c' kw have r: "r0' = r0"
    by simp
  have sg0: "same_graph s0 s0'"
    using check_same_graph [of v "key (verts s ! w)" s] check_same_graph [of v "key (verts s' ! w)" s']
      c c' sg
    by (auto intro: same_graph_trans same_graph_sym)
  note f0 = same_graph_fields [OF sg0]
  have l0: "length (verts s0) = length (verts s)"
    using check_same_graph [of v "key (verts s ! w)" s] c same_graph_fields(1) by fastforce
  show ?thesis
  proof (cases r0)
    case (Inl e)
    with c c' r sg0 show ?thesis
      by (simp add: addEdge_def)
  next
    case (Inr u)
    have iv: "idx (verts s0 ! v) = idx (verts s0' ! v)"
      and iw: "incoming (verts s0 ! w) = incoming (verts s0' ! w)"
      using f0(2,6) v w l0 by simp_all
    show ?thesis
    proof (cases "idx (verts s0 ! v) \<in> set (incoming (verts s0 ! w))")
      case True
      with c c' r Inr iv iw sg0 show ?thesis
        by (simp add: addEdge_def)
    next
      case False
      define x where "x = idx (verts s0 ! v)"
      define vs1 where "vs1 = (verts s0)[w := (verts s0 ! w)\<lparr>incoming := incoming (verts s0 ! w) @ [x]\<rparr>]"
      define vs2 where "vs2 = vs1[v := (vs1 ! v)\<lparr>out := True\<rparr>]"
      define vs1' where "vs1' = (verts s0')[w := (verts s0' ! w)\<lparr>incoming := incoming (verts s0' ! w) @ [x]\<rparr>]"
      define vs2' where "vs2' = vs1'[v := (vs1' ! v)\<lparr>out := True\<rparr>]"
      note cf = commit_fields [OF vs1_def vs2_def]
      note cf' = commit_fields [OF vs1'_def vs2'_def]
      have a: "addEdge v w s = (Inr (), s0\<lparr>verts := vs2\<rparr>)"
        using False c Inr by (simp add: addEdge_def Let_def vs2_def vs1_def x_def)
      have a': "addEdge v w s' = (Inr (), s0'\<lparr>verts := vs2'\<rparr>)"
        using False c' r Inr iv iw by (simp add: addEdge_def Let_def vs2'_def vs1'_def x_def)
      have "same_graph (s0\<lparr>verts := vs2\<rparr>) (s0'\<lparr>verts := vs2'\<rparr>)"
      proof (rule same_graphI)
        show "length (verts (s0\<lparr>verts := vs2\<rparr>)) = length (verts (s0'\<lparr>verts := vs2'\<rparr>))"
          using f0(1) by (simp add: vs2_def vs1_def vs2'_def vs1'_def)
        fix j assume "j < length (verts (s0\<lparr>verts := vs2\<rparr>))"
        then have j: "j < length (verts s0)" "j < length (verts s0')"
          using f0(1) by (simp_all add: vs2_def vs1_def)
        show "idx (verts (s0\<lparr>verts := vs2\<rparr>) ! j) = idx (verts (s0'\<lparr>verts := vs2'\<rparr>) ! j) \<and>
          key (verts (s0\<lparr>verts := vs2\<rparr>) ! j) = key (verts (s0'\<lparr>verts := vs2'\<rparr>) ! j) \<and>
          val (verts (s0\<lparr>verts := vs2\<rparr>) ! j) = val (verts (s0'\<lparr>verts := vs2'\<rparr>) ! j) \<and>
          out (verts (s0\<lparr>verts := vs2\<rparr>) ! j) = out (verts (s0'\<lparr>verts := vs2'\<rparr>) ! j) \<and>
          incoming (verts (s0\<lparr>verts := vs2\<rparr>) ! j) = incoming (verts (s0'\<lparr>verts := vs2'\<rparr>) ! j)"
          using j f0(2-6) [of j] iw by (simp add: cf cf')
      qed
      with a a' show ?thesis by simp
    qed
  qed
qed

lemma edge_before_graph_op: "graph_op i (edge_before i)"
  unfolding graph_op_def
proof (intro allI impI)
  fix b and s s' :: "'v vertices"
  assume h: "same_graph s s' \<and> i < length (verts s)"
  then have sg: "same_graph s s'" and i: "i < length (verts s)" by simp_all
  obtain r1 s1 where a: "Vertices_add b s = (r1, s1)" by (cases "Vertices_add b s")
  obtain r1' s1' where a': "Vertices_add b s' = (r1', s1')" by (cases "Vertices_add b s'")
  from Vertices_add_cong [OF sg, of b] a a' have r: "r1' = r1" and sg1: "same_graph s1 s1'"
    by simp_all
  from grows_length [OF Vertices_add_grows [OF a] i] have i1: "i < length (verts s1)" .
  show "fst (edge_before i b s) = fst (edge_before i b s') \<and>
        same_graph (snd (edge_before i b s)) (snd (edge_before i b s')) \<and>
        i < length (verts (snd (edge_before i b s)))"
  proof (cases r1)
    case (Inl e)
    with a a' r sg1 i1 show ?thesis by (simp add: edge_before_def)
  next
    case (Inr w)
    with a have w: "w < length (verts s1)" by (simp add: Vertices_add_range)
    obtain r2 s2 where e: "addEdge i w s1 = (r2, s2)" by (cases "addEdge i w s1")
    from grows_length [OF addEdge_grows [OF e] i1] have "i < length (verts s2)" .
    with addEdge_cong [OF sg1 i1 w] a a' r Inr e show ?thesis
      by (simp add: edge_before_def)
  qed
qed

lemma edge_after_graph_op: "graph_op i (edge_after i)"
  unfolding graph_op_def
proof (intro allI impI)
  fix b and s s' :: "'v vertices"
  assume h: "same_graph s s' \<and> i < length (verts s)"
  then have sg: "same_graph s s'" and i: "i < length (verts s)" by simp_all
  obtain r1 s1 where a: "Vertices_add b s = (r1, s1)" by (cases "Vertices_add b s")
  obtain r1' s1' where a': "Vertices_add b s' = (r1', s1')" by (cases "Vertices_add b s'")
  from Vertices_add_cong [OF sg, of b] a a' have r: "r1' = r1" and sg1: "same_graph s1 s1'"
    by simp_all
  from grows_length [OF Vertices_add_grows [OF a] i] have i1: "i < length (verts s1)" .
  show "fst (edge_after i b s) = fst (edge_after i b s') \<and>
        same_graph (snd (edge_after i b s)) (snd (edge_after i b s')) \<and>
        i < length (verts (snd (edge_after i b s)))"
  proof (cases r1)
    case (Inl e)
    with a a' r sg1 i1 show ?thesis by (simp add: edge_after_def)
  next
    case (Inr w)
    with a have w: "w < length (verts s1)" by (simp add: Vertices_add_range)
    obtain r2 s2 where e: "addEdge w i s1 = (r2, s2)" by (cases "addEdge w i s1")
    from grows_length [OF addEdge_grows [OF e] i1] have "i < length (verts s2)" .
    with addEdge_cong [OF sg1 w i1] a a' r Inr e show ?thesis
      by (simp add: edge_after_def)
  qed
qed

lemma edges_loop_cong:
  assumes f: "graph_op i f"
  shows "same_graph s s' \<Longrightarrow> i < length (verts s) \<Longrightarrow>
     fst (edges_loop f bs s) = fst (edges_loop f bs s') \<and>
     same_graph (snd (edges_loop f bs s)) (snd (edges_loop f bs s')) \<and>
     i < length (verts (snd (edges_loop f bs s)))"
proof (induction bs arbitrary: s s')
  case Nil
  then show ?case by simp
next
  case (Cons b bs)
  obtain r1 s1 where a: "f b s = (r1, s1)" by (cases "f b s")
  obtain r1' s1' where a': "f b s' = (r1', s1')" by (cases "f b s'")
  from f Cons.prems a a' have r: "r1' = r1" and sg1: "same_graph s1 s1'"
    and i1: "i < length (verts s1)"
    unfolding graph_op_def by (metis fst_conv snd_conv)+
  show ?case
  proof (cases r1)
    case (Inl e)
    with a a' r sg1 i1 show ?thesis by simp
  next
    case (Inr u)
    with Cons.IH [OF sg1 i1] a a' r show ?thesis by simp
  qed
qed

lemma constraints_cong:
  assumes f: "graph_op i f" and sg: "same_graph s s'" and i: "i < length (verts s)"
  shows "fst (constraints f ks s) = fst (constraints f ks s') \<and>
     same_graph (snd (constraints f ks s)) (snd (constraints f ks s')) \<and>
     i < length (verts (snd (constraints f ks s)))"
proof (cases ks)
  case Absent
  with sg i show ?thesis by (simp add: constraints_simps)
next
  case (Single b)
  show ?thesis
  proof (cases "b = []")
    case True
    with sg i Single show ?thesis by (simp add: constraints_simps)
  next
    case False
    with f sg i Single show ?thesis
      unfolding graph_op_def by (simp add: constraints_simps)
  qed
next
  case (Many bs)
  with edges_loop_cong [OF f sg i, of bs] show ?thesis
    by (simp add: constraints_simps)
qed

lemma DAG_add_cong:
  assumes sg: "same_graph s s'"
  shows "fst (DAG_add k v b a s) = fst (DAG_add k v b a s') \<and>
     same_graph (snd (DAG_add k v b a s)) (snd (DAG_add k v b a s'))"
proof (cases "k = []")
  case True
  with sg show ?thesis by (simp add: DAG_add_def)
next
  case False
  from Vertices_add_returns [OF False] obtain i s0 where a: "Vertices_add k s = (Inr i, s0)"
    by blast
  from Vertices_add_returns [OF False] obtain i' s0' where a': "Vertices_add k s' = (Inr i', s0')"
    by blast
  from Vertices_add_cong [OF sg, of k] a a' have ii: "i' = i" and sg0: "same_graph s0 s0'"
    by simp_all
  from Vertices_add_range [OF a] have i0: "i < length (verts s0)" .
  define s1 where "s1 = s0\<lparr>verts := (verts s0)[i := (verts s0 ! i)\<lparr>val := v\<rparr>]\<rparr>"
  define s1' where "s1' = s0'\<lparr>verts := (verts s0')[i := (verts s0' ! i)\<lparr>val := v\<rparr>]\<rparr>"
  have sg1: "same_graph s1 s1'"
    unfolding s1_def s1'_def by (rule assign_cong [OF sg0])
  have i1: "i < length (verts s1)"
    using i0 by (simp add: s1_def)
  obtain r2 s2 where c: "constraints (edge_before i) b s1 = (r2, s2)"
    by (cases "constraints (edge_before i) b s1")
  obtain r2' s2' where c': "constraints (edge_before i) b s1' = (r2', s2')"
    by (cases "constraints (edge_before i) b s1'")
  from constraints_cong [OF edge_before_graph_op sg1 i1, of b] c c'
  have r: "r2' = r2" and sg2: "same_graph s2 s2'" and i2: "i < length (verts s2)"
    by simp_all
  have d: "DAG_add k v b a s =
      (case r2 of Inl e \<Rightarrow> (Inl e, s2) | Inr _ \<Rightarrow> constraints (edge_after i) a s2)"
    using False a c by (simp add: DAG_add_def s1_def split: sum.splits)
  have d': "DAG_add k v b a s' =
      (case r2 of Inl e \<Rightarrow> (Inl e, s2') | Inr _ \<Rightarrow> constraints (edge_after i) a s2')"
    using False a' ii c' r by (simp add: DAG_add_def s1'_def split: sum.splits)
  show ?thesis
  proof (cases r2)
    case (Inl e)
    with d d' sg2 show ?thesis by simp
  next
    case (Inr u)
    with d d' constraints_cong [OF edge_after_graph_op sg2 i2, of a] show ?thesis by simp
  qed
qed

lemma run_cong:
  "same_graph s s' \<Longrightarrow> same_graph (run cs s) (run (filter (\<lambda>c. c \<noteq> Each) cs) s')"
proof (induction cs arbitrary: s s')
  case Nil
  then show ?case by simp
next
  case (Cons c cs)
  show ?case
  proof (cases c)
    case (Add k v b a)
    from DAG_add_cong [OF Cons.prems, of k v b a]
    have "same_graph (snd (DAG_add k v b a s)) (snd (DAG_add k v b a s'))" by simp
    from Cons.IH [OF this] Add show ?thesis by simp
  next
    case Each
    from walk_same_graph [of s] Cons.prems have "same_graph (snd (DAG_each s)) s'"
      by (auto simp: DAG_each_def intro: same_graph_trans)
    from Cons.IH [OF this] Each show ?thesis by simp
  qed
qed

lemma build_same_graph:
  assumes "filter (\<lambda>c. c \<noteq> Each) cs' = filter (\<lambda>c. c \<noteq> Each) cs"
  shows "same_graph (build cs') (build cs)"
proof -
  have "same_graph (build cs') (build (filter (\<lambda>c. c \<noteq> Each) cs'))"
    and "same_graph (build cs) (build (filter (\<lambda>c. c \<noteq> Each) cs))"
    unfolding build_def by (rule run_cong [OF same_graph_refl])+
  with assms show ?thesis
    by (auto intro: same_graph_trans same_graph_sym)
qed

lemma lookup_iff:
  "lookup k vs = Some i \<longleftrightarrow> i < length vs \<and> key (vs ! i) = k \<and> (\<forall>j<i. key (vs ! j) \<noteq> k)"
proof (induction vs arbitrary: i)
  case Nil
  then show ?case by simp
next
  case (Cons a vs)
  show ?case
  proof (cases "key a = k")
    case True
    then show ?thesis by (cases i) auto
  next
    case False
    show ?thesis
    proof (cases i)
      case 0
      with False show ?thesis by simp
    next
      case (Suc n)
      have "(\<forall>j<Suc n. key ((a # vs) ! j) \<noteq> k) = (\<forall>j<n. key (vs ! j) \<noteq> k)"
        using False by (auto simp: less_Suc_eq_0_disj)
      with False Suc Cons.IH [of n] show ?thesis
        by auto
    qed
  qed
qed

lemma lookup_keeps:
  assumes "keeps K s s'" and "lookup k (verts s) = Some i"
  shows "lookup k (verts s') = Some i"
proof -
  from assms(2) have i: "i < length (verts s)" "key (verts s ! i) = k"
    "\<forall>j<i. key (verts s ! j) \<noteq> k"
    by (simp_all add: lookup_iff)
  from assms(1) i show ?thesis
    unfolding lookup_iff keeps_def by auto
qed

lemma keeps_trans: "keeps K s t \<Longrightarrow> keeps K t u \<Longrightarrow> keeps K s u"
  unfolding keeps_def by (auto intro: prefix_order.trans)

lemma keeps_mono: "keeps K s t \<Longrightarrow> K \<subseteq> K' \<Longrightarrow> keeps K' s t"
  unfolding keeps_def by auto

lemma grows_keeps: "grows s t \<Longrightarrow> keeps K s t"
  unfolding keeps_def grows_def by auto

lemma once_if_distinct:
  "distinct (map fst calls) \<Longrightarrow> (k, v) \<in> set calls \<Longrightarrow> length (filter (\<lambda>c. fst c = k) calls) = 1"
proof (induction calls)
  case Nil
  then show ?case by simp
next
  case (Cons c calls)
  show ?case
  proof (cases "fst c = k")
    case True
    from Cons.prems(1) have "fst c \<notin> fst ` set calls" by simp
    with True have "\<forall>x \<in> set calls. fst x \<noteq> k" by (metis imageI)
    then have "filter (\<lambda>c. fst c = k) calls = []" by (simp add: filter_empty_conv)
    with True show ?thesis by simp
  next
    case False
    with Cons show ?thesis by auto
  qed
qed

lemma each_contains:
  assumes ok: "store_ok s" and l: "lookup k (verts s) = Some i"
  shows "\<exists>calls u. DAG_each s = (Inr calls, u) \<and> (k, val (verts s ! i)) \<in> set calls \<and>
           length (filter (\<lambda>c. fst c = k) calls) = 1"
proof -
  from walk_result [OF ok] obtain order t'
    where wo: "walk_order s order" and r: "walk s = (Inr (calls_of s order), t')"
    by blast
  note f = walk_order_facts [OF ok wo]
  from lookup_Some [OF l] have i: "i < length (verts s)" and k: "key (verts s ! i) = k"
    by simp_all
  from i f(2) have "i \<in> set order" by simp
  then have m: "(k, val (verts s ! i)) \<in> set (calls_of s order)"
    using k by (force simp: calls_of_def)
  have "distinct (map fst (calls_of s order))"
    using calls_keys_distinct [OF ok f(1)] f(2) by simp
  from once_if_distinct [OF this m] m r show ?thesis
    by (simp add: DAG_each_def)
qed

lemma readd:
  assumes ok: "store_ok s" and l: "lookup k (verts s) = Some i"
    and a: "DAG_add k v b a s = (r, s')"
  shows "lookup k (verts s') = Some i" and "idx (verts s' ! i) = i" and "val (verts s' ! i) = v"
    and "prefix (incoming (verts s ! i)) (incoming (verts s' ! i))"
    and "keeps {k} s s'" and "store_ok s'"
proof -
  from lookup_Some [OF l] have i: "i < length (verts s)" and k: "key (verts s ! i) = k"
    by simp_all
  from store_ok_key [OF ok i] k have ne: "k \<noteq> []" by auto
  show kp: "keeps {k} s s'" by (rule DAG_add_keeps [OF a])
  show l': "lookup k (verts s') = Some i" by (rule lookup_keeps [OF kp l])
  show ok': "store_ok s'" by (rule DAG_add_ok [OF ok a])
  from lookup_Some [OF l'] store_ok_key [OF ok'] show "idx (verts s' ! i) = i" by simp
  from kp i show "prefix (incoming (verts s ! i)) (incoming (verts s' ! i))"
    by (simp add: keeps_def)
  have "assigned k v s = s\<lparr>verts := (verts s)[i := (verts s ! i)\<lparr>val := v\<rparr>]\<rparr>"
    using ne l by (simp add: assigned_def Vertices_add_def)
  then have "val (verts (assigned k v s) ! i) = v" and "i < length (verts (assigned k v s))"
    using i by simp_all
  with DAG_add_grows [OF ne a] show "val (verts s' ! i) = v"
    by (simp add: grows_def)
qed

lemma addEdge_length: "length (verts (snd (addEdge v w s))) = length (verts s)"
proof -
  obtain r0 s0 where c: "check v (key (verts s ! w)) s = (r0, s0)"
    by (cases "check v (key (verts s ! w)) s")
  from check_frame [of v "key (verts s ! w)" s] c
  have "length (verts s0) = length (verts s)"
    using unflag_same_fields(1) by fastforce
  with c show ?thesis
    by (auto simp: addEdge_def Let_def split: sum.splits)
qed

lemma Vertices_add_lookup:
  "Vertices_add k s = (Inr i, s') \<Longrightarrow> lookup k (verts s') = Some i \<and> k \<noteq> []"
  by (auto simp: Vertices_add_def Let_def lookup_snoc split: if_splits option.splits)

lemma placeholder_Vertices_add:
  "placeholder t s \<Longrightarrow> Vertices_add k s = (r, s') \<Longrightarrow> placeholder t s'"
  by (auto simp: placeholder_def Vertices_add_def Let_def nth_append
      split: if_splits option.splits)

lemma placeholder_grows:
  "placeholder t s \<Longrightarrow> grows s s' \<Longrightarrow> length (verts s') = length (verts s) \<Longrightarrow> placeholder t s'"
  by (simp add: placeholder_def grows_def)

lemma placeholder_addEdge:
  assumes "placeholder t s" and "addEdge v w s = (r, s')"
  shows "placeholder t s'"
  using placeholder_grows [OF assms(1) addEdge_grows [OF assms(2)]] addEdge_length [of v w s] assms(2)
  by simp

lemma placeholder_edge:
  assumes "placeholder t s" and "edge_before i b s = (r, s') \<or> edge_after i b s = (r, s')"
  shows "placeholder t s'"
proof -
  obtain r1 s1 where a: "Vertices_add b s = (r1, s1)" by (cases "Vertices_add b s")
  from placeholder_Vertices_add [OF assms(1) a] have p1: "placeholder t s1" .
  show ?thesis
  proof (cases r1)
    case (Inl e)
    with assms(2) a p1 show ?thesis
      by (auto simp: edge_before_def edge_after_def)
  next
    case (Inr w)
    with assms(2) a have "addEdge i w s1 = (r, s') \<or> addEdge w i s1 = (r, s')"
      by (auto simp: edge_before_def edge_after_def)
    with p1 show ?thesis
      by (auto intro: placeholder_addEdge)
  qed
qed

lemma placeholder_edges_loop:
  assumes f: "\<forall>b s r s'. placeholder t s \<longrightarrow> f b s = (r, s') \<longrightarrow> placeholder t s'"
  shows "placeholder t s \<Longrightarrow> edges_loop f bs s = (r, s') \<Longrightarrow> placeholder t s'"
proof (induction bs arbitrary: s)
  case Nil
  then show ?case by simp
next
  case (Cons b bs)
  obtain r1 s1 where fb: "f b s = (r1, s1)" by (cases "f b s")
  with f Cons.prems(1) have p1: "placeholder t s1" by blast
  show ?case
  proof (cases r1)
    case (Inl e)
    with Cons.prems(2) fb p1 show ?thesis by simp
  next
    case (Inr u)
    with Cons.prems(2) fb have "edges_loop f bs s1 = (r, s')" by simp
    from Cons.IH [OF p1 this] show ?thesis .
  qed
qed

lemma placeholder_constraints:
  assumes f: "\<forall>b s r s'. placeholder t s \<longrightarrow> f b s = (r, s') \<longrightarrow> placeholder t s'"
    and p: "placeholder t s" and c: "constraints f ks s = (r, s')"
  shows "placeholder t s'"
proof (cases ks)
  case Absent
  with p c show ?thesis by (simp add: constraints_simps)
next
  case (Single b)
  with p c f show ?thesis
    by (cases "b = []") (auto simp: constraints_simps)
next
  case (Many bs)
  with c have "edges_loop f bs s = (r, s')" by (simp add: constraints_simps)
  from placeholder_edges_loop [OF f p this] show ?thesis .
qed

lemma edges_loop_grows_all:
  assumes "\<forall>b s r s'. f b s = (r, s') \<longrightarrow> grows s s'" and "edges_loop f bs s = (r, s')"
  shows "grows s s'"
proof (rule edges_loop_grows [where f = f])
  show "\<And>b s r s'. f b s = (r, s') \<Longrightarrow> grows s s'"
    using assms(1) by blast
  show "edges_loop f bs s = (r, s')" by fact
qed

lemma edges_loop_processed:
  assumes g: "\<forall>b s r s'. f b s = (r, s') \<longrightarrow> grows s s'"
  shows "edges_loop f bs s = (Inr (), s') \<Longrightarrow> t \<in> set bs \<Longrightarrow>
     \<exists>sa sb. grows s sa \<and> f t sa = (Inr (), sb) \<and> grows sb s'"
proof (induction bs arbitrary: s)
  case Nil
  then show ?case by simp
next
  case (Cons b bs)
  obtain r1 s1 where fb: "f b s = (r1, s1)" by (cases "f b s")
  with Cons.prems(1) have r1: "r1 = Inr ()" and rest: "edges_loop f bs s1 = (Inr (), s')"
    by (cases r1; simp)+
  show ?case
  proof (cases "t = b")
    case True
    from edges_loop_grows_all [OF g rest] fb r1 True show ?thesis
      by (blast intro: grows_refl)
  next
    case False
    with Cons.prems(2) have "t \<in> set bs" by simp
    from Cons.IH [OF rest this] obtain sa sb
      where "grows s1 sa" "f t sa = (Inr (), sb)" "grows sb s'"
      by blast
    moreover from g fb have "grows s s1" by blast
    ultimately show ?thesis
      by (blast intro: grows_trans)
  qed
qed

lemma constraints_processed:
  assumes g: "\<forall>b s r s'. f b s = (r, s') \<longrightarrow> grows s s'"
    and c: "constraints f ks s = (Inr (), s')" and t: "t \<in> targets ks"
  shows "\<exists>sa sb. grows s sa \<and> f t sa = (Inr (), sb) \<and> grows sb s'"
proof (cases ks)
  case Absent
  with t show ?thesis by simp
next
  case (Single b)
  with t have "b \<noteq> []" "t = b" by (simp_all split: if_splits)
  with c Single show ?thesis
    by (auto simp: constraints_simps intro: grows_refl)
next
  case (Many bs)
  with c t have "edges_loop f bs s = (Inr (), s')" "t \<in> set bs"
    by (simp_all add: constraints_simps)
  from edges_loop_processed [OF g this] show ?thesis .
qed

lemma lookup_cong_keys: "map key vs = map key vs' \<Longrightarrow> lookup k vs = lookup k vs'"
proof (induction vs arbitrary: vs')
  case Nil
  then show ?case by simp
next
  case (Cons a vs)
  then show ?case by (cases vs') auto
qed

lemma key_assign_nth: "key (vs[i := (vs ! i)\<lparr>val := v\<rparr>] ! j) = key (vs ! j)"
  by (cases "j = i"; cases "i < length vs") (simp_all add: list_update_beyond not_less)

lemma assigned_lookup:
  assumes "k \<noteq> []"
  shows "\<exists>i s0. Vertices_add k s = (Inr i, s0) \<and>
           assigned k v s = s0\<lparr>verts := (verts s0)[i := (verts s0 ! i)\<lparr>val := v\<rparr>]\<rparr> \<and>
           lookup k (verts (assigned k v s)) = Some i"
proof -
  from Vertices_add_returns [OF assms] obtain i s0 where a: "Vertices_add k s = (Inr i, s0)"
    by blast
  from Vertices_add_lookup [OF a] have l: "lookup k (verts s0) = Some i" by simp
  have as: "assigned k v s = s0\<lparr>verts := (verts s0)[i := (verts s0 ! i)\<lparr>val := v\<rparr>]\<rparr>"
    by (simp add: assigned_def a)
  have "map key (verts (assigned k v s)) = map key (verts s0)"
    unfolding as by (rule nth_equalityI) (simp_all add: key_assign_nth)
  from lookup_cong_keys [OF this, of k] l have "lookup k (verts (assigned k v s)) = Some i"
    by simp
  with a as show ?thesis by blast
qed

lemma assigned_no_key:
  assumes "lookup t (verts s) = None" and "t \<noteq> k"
  shows "\<forall>j < length (verts (assigned k v s)). key (verts (assigned k v s) ! j) \<noteq> t"
proof -
  from assms(1) have no: "\<forall>j < length (verts s). key (verts s ! j) \<noteq> t"
    by (auto simp: lookup_None)
  show ?thesis
  proof (cases "k = []")
    case True
    then have "assigned k v s = s"
      by (simp add: assigned_def Vertices_add_def)
    with no show ?thesis by simp
  next
    case False
    show ?thesis
    proof (cases "lookup k (verts s)")
      case (Some i)
      with False have "assigned k v s = s\<lparr>verts := (verts s)[i := (verts s ! i)\<lparr>val := v\<rparr>]\<rparr>"
        by (simp add: assigned_def Vertices_add_def)
      with no show ?thesis
        by (simp add: key_assign_nth)
    next
      case None
      let ?new = "\<lparr>idx = length (verts s), key = k, val = None, out = False, flag = False,
             incoming = []\<rparr> :: 'a vertex"
      from None False have as: "assigned k v s =
          s\<lparr>verts := (verts s @ [?new])[length (verts s) := ((verts s @ [?new]) ! length (verts s))\<lparr>val := v\<rparr>]\<rparr>"
        by (simp add: assigned_def Vertices_add_def Let_def)
      have "key (verts (assigned k v s) ! j) \<noteq> t" if "j < length (verts (assigned k v s))" for j
      proof -
        from that have "j < length (verts s) \<or> j = length (verts s)"
          unfolding as by auto
        then show ?thesis
          using no assms(2) unfolding as by (auto simp: nth_append)
      qed
      then show ?thesis by blast
    qed
  qed
qed

lemma addEdge_self:
  "key (verts s ! v) = key (verts s ! w) \<Longrightarrow> fst (addEdge v w s) \<noteq> Inr ()"
  by (simp add: addEdge_def check_def)

lemma edge_target:
  assumes e: "edge_before i t sa = (Inr (), sb) \<or> edge_after i t sa = (Inr (), sb)"
    and i: "i < length (verts sa)"
  shows "t \<noteq> []" and "\<exists>w. lookup t (verts sb) = Some w" and "key (verts sa ! i) \<noteq> t"
proof -
  obtain r1 sc where a: "Vertices_add t sa = (r1, sc)" by (cases "Vertices_add t sa")
  from e a obtain w where r1: "r1 = Inr w"
    by (cases r1) (auto simp: edge_before_def edge_after_def)
  from Vertices_add_lookup [OF a [unfolded r1]] have l: "lookup t (verts sc) = Some w"
    and ne: "t \<noteq> []"
    by simp_all
  show "t \<noteq> []" by (rule ne)
  from e a r1 have ae: "addEdge i w sc = (Inr (), sb) \<or> addEdge w i sc = (Inr (), sb)"
    by (auto simp: edge_before_def edge_after_def)
  then have g: "grows sc sb"
    by (auto intro: addEdge_grows)
  from lookup_keeps [OF grows_keeps [OF g] l] show "\<exists>w. lookup t (verts sb) = Some w"
    by blast
  from lookup_Some [OF l] have kw: "key (verts sc ! w) = t" by simp
  from Vertices_add_grows [OF a] i have ki: "key (verts sc ! i) = key (verts sa ! i)"
    by (simp add: grows_def)
  from ae addEdge_self [of sc i w] addEdge_self [of sc w i] have "key (verts sc ! i) \<noteq> key (verts sc ! w)"
    by (metis fst_conv)
  with kw ki show "key (verts sa ! i) \<noteq> t" by simp
qed

lemma DAG_add_parts:
  assumes k: "k \<noteq> []" and a: "DAG_add k v b a s = (r, s')"
  shows "\<exists>i r2 s2. lookup k (verts (assigned k v s)) = Some i \<and>
           constraints (edge_before i) b (assigned k v s) = (r2, s2) \<and>
           (case r2 of Inl e \<Rightarrow> r = Inl e \<and> s' = s2
            | Inr _ \<Rightarrow> constraints (edge_after i) a s2 = (r, s'))"
proof -
  from assigned_lookup [OF k, of s v] obtain i s0
    where va: "Vertices_add k s = (Inr i, s0)"
      and as: "assigned k v s = s0\<lparr>verts := (verts s0)[i := (verts s0 ! i)\<lparr>val := v\<rparr>]\<rparr>"
      and l: "lookup k (verts (assigned k v s)) = Some i"
    by blast
  obtain r2 s2 where c: "constraints (edge_before i) b (assigned k v s) = (r2, s2)"
    by (cases "constraints (edge_before i) b (assigned k v s)")
  have "DAG_add k v b a s =
      (case constraints (edge_before i) b (assigned k v s) of
         (Inl e, s2) \<Rightarrow> (Inl e, s2)
       | (Inr _, s2) \<Rightarrow> constraints (edge_after i) a s2)"
    using k va unfolding as by (simp add: DAG_add_def Let_def)
  with a c have "case r2 of Inl e \<Rightarrow> r = Inl e \<and> s' = s2
            | Inr _ \<Rightarrow> constraints (edge_after i) a s2 = (r, s')"
    by (cases r2) auto
  with l c show ?thesis by blast
qed

lemma placeholder_DAG_add:
  assumes k: "k \<noteq> []" and p: "placeholder t (assigned k v s)"
    and a: "DAG_add k v b a s = (r, s')"
  shows "placeholder t s'"
proof -
  from DAG_add_parts [OF k a] obtain i r2 s2
    where c: "constraints (edge_before i) b (assigned k v s) = (r2, s2)"
      and rest: "case r2 of Inl e \<Rightarrow> r = Inl e \<and> s' = s2
            | Inr _ \<Rightarrow> constraints (edge_after i) a s2 = (r, s')"
    by blast
  have fb: "\<forall>b s r s'. placeholder t s \<longrightarrow> edge_before i b s = (r, s') \<longrightarrow> placeholder t s'"
    and fa: "\<forall>b s r s'. placeholder t s \<longrightarrow> edge_after i b s = (r, s') \<longrightarrow> placeholder t s'"
    using placeholder_edge by blast+
  from placeholder_constraints [OF fb p c] have p2: "placeholder t s2" .
  show ?thesis
  proof (cases r2)
    case (Inl e)
    with rest p2 show ?thesis by simp
  next
    case (Inr u)
    with rest have "constraints (edge_after i) a s2 = (r, s')" by simp
    from placeholder_constraints [OF fa p2 this] show ?thesis .
  qed
qed

lemma DAG_add_processed:
  assumes a: "DAG_add k v b a s = (Inr (), s')" and t: "t \<in> targets b \<union> targets a"
  shows "\<exists>i sa sb. k \<noteq> [] \<and> lookup k (verts (assigned k v s)) = Some i \<and>
           grows (assigned k v s) sa \<and>
           (edge_before i t sa = (Inr (), sb) \<or> edge_after i t sa = (Inr (), sb)) \<and>
           grows sb s'"
proof -
  from a have k: "k \<noteq> []"
    by (auto simp: DAG_add_def)
  from DAG_add_parts [OF k a] obtain i r2 s2
    where l: "lookup k (verts (assigned k v s)) = Some i"
      and c: "constraints (edge_before i) b (assigned k v s) = (r2, s2)"
      and rest: "case r2 of Inl e \<Rightarrow> Inr () = Inl e \<and> s' = s2
            | Inr _ \<Rightarrow> constraints (edge_after i) a s2 = (Inr (), s')"
    by blast
  from rest have r2: "r2 = Inr ()" and c2: "constraints (edge_after i) a s2 = (Inr (), s')"
    by (cases r2; simp)+
  have gb: "\<forall>b s r s'. edge_before i b s = (r, s') \<longrightarrow> grows s s'"
    and ga: "\<forall>b s r s'. edge_after i b s = (r, s') \<longrightarrow> grows s s'"
    using edge_before_grows edge_after_grows by blast+
  have g1: "grows (assigned k v s) s2"
    using constraints_grows [OF edge_before_grows c] .
  have g2: "grows s2 s'"
    using constraints_grows [OF edge_after_grows c2] .
  from t show ?thesis
  proof
    assume "t \<in> targets b"
    from constraints_processed [OF gb c [unfolded r2] this] obtain sa sb
      where "grows (assigned k v s) sa" "edge_before i t sa = (Inr (), sb)" "grows sb s2"
      by blast
    with g2 k l show ?thesis
      by (blast intro: grows_trans)
  next
    assume "t \<in> targets a"
    from constraints_processed [OF ga c2 this] obtain sa sb
      where "grows s2 sa" "edge_after i t sa = (Inr (), sb)" "grows sb s'"
      by blast
    with g1 k l show ?thesis
      by (blast intro: grows_trans)
  qed
qed

lemma keeps_refl: "keeps K s s"
  by (simp add: keeps_def)

lemma run_keeps:
  "\<forall>c \<in> set cs. \<not> adds_key t c \<Longrightarrow> keeps {k. k \<noteq> t} s (run cs s)"
proof (induction cs arbitrary: s)
  case Nil
  show ?case by (simp add: keeps_refl)
next
  case (Cons c cs)
  from Cons.prems have rest: "\<forall>c \<in> set cs. \<not> adds_key t c" by simp
  show ?case
  proof (cases c)
    case (Add k v b a)
    with Cons.prems have "k \<noteq> t" by simp
    have "keeps {k} s (snd (DAG_add k v b a s))"
      by (rule DAG_add_keeps [of k v b a s "fst (DAG_add k v b a s)"]) simp
    with \<open>k \<noteq> t\<close> have "keeps {k. k \<noteq> t} s (snd (DAG_add k v b a s))"
      by (auto intro: keeps_mono)
    with Cons.IH [OF rest, of "snd (DAG_add k v b a s)"] Add show ?thesis
      by (auto intro: keeps_trans)
  next
    case Each
    have "keeps {k. k \<noteq> t} s (snd (DAG_each s))"
      unfolding DAG_each_def by (rule grows_keeps [OF unflag_grows [OF walk_frame]])
    with Cons.IH [OF rest, of "snd (DAG_each s)"] Each show ?thesis
      by (auto intro: keeps_trans)
  qed
qed

section \<open>The claims\<close>

subsection \<open>C1: the output of \<open>each\<close> respects every committed edge\<close>

text \<open>
  Claim C1: for every store built by a sequence of calls and every committed precedence
  edge (\<open>p\<close> before \<open>w\<close>), \<open>each\<close> returns, no key occurs twice among its calls of the
  visitor, and the call with the key of \<open>p\<close> comes strictly before the call with the key of
  \<open>w\<close>. The sequence may hold calls of \<open>each\<close> and calls of \<open>add\<close> that throw, so the statement
  covers every invocation of \<open>each\<close> and, in particular, the stores built by successful
  calls of \<open>add\<close> alone.
\<close>

theorem C1_topological:
  assumes "(p, w) \<in> edges (build cs)"
  shows "\<exists>calls s'. DAG_each (build cs) = (Inr calls, s') \<and> walk (build cs) = (Inr calls, s') \<and>
           distinct (map fst calls) \<and>
           emitted_before calls (key (verts (build cs) ! p)) (key (verts (build cs) ! w))"
proof -
  let ?s = "build cs"
  note ok = build_ok [of cs]
  from walk_result [OF ok] obtain order t'
    where wo: "walk_order ?s order" and r: "walk ?s = (Inr (calls_of ?s order), t')"
    by blast
  note f = walk_order_facts [OF ok wo]
  from assms have w: "w < length (verts ?s)" and p: "p \<in> set (preds ?s w)"
    by (simp_all add: edges_def preds_def)
  from w f(2) have "w \<in> set order" by simp
  from topo_before [OF f(3) this p] obtain i j
    where ij: "i < j" "j < length order" "order ! i = p" "order ! j = w"
    by blast
  then have "emitted_before (calls_of ?s order) (key (verts ?s ! p)) (key (verts ?s ! w))"
    unfolding emitted_before_def
    by (intro exI [of _ i] exI [of _ j]) (simp add: calls_of_def)
  moreover have "distinct (map fst (calls_of ?s order))"
    using calls_keys_distinct [OF ok f(1)] f(2) by simp
  ultimately show ?thesis
    using r by (simp add: DAG_each_def)
qed

text \<open>On the store with \<open>a\<close> before \<open>b\<close> before \<open>c\<close>, the key \<open>a\<close> is emitted before \<open>b\<close>.\<close>

theorem C1_topological_witness:
  "(1, 0) \<in> edges store_bac \<and>
   fst (DAG_each store_bac) = Inr [(''a'', None), (''b'', Some 2), (''c'', None)] \<and>
   (\<exists>calls. fst (DAG_each store_bac) = Inr calls \<and> emitted_before calls ''a'' ''b'')"
proof -
  have 1: "fst (DAG_each store_bac) = Inr [(''a'', None), (''b'', Some 2), (''c'', None)]"
    by code_simp
  have k: "key (verts store_bac ! 1) = ''a''" "key (verts store_bac ! 0) = ''b''"
    by (simp_all add: store_bac_verts)
  from C1_topological [of 1 0 "[Add ''b'' (Some (2::nat)) Absent (Single ''a''),
      Add ''c'' None Absent (Single ''b'')]"] store_bac_edges(1)
  have "\<exists>calls. fst (DAG_each store_bac) = Inr calls \<and> emitted_before calls ''a'' ''b''"
    unfolding store_bac_def [symmetric] k by force
  with 1 store_bac_edges(1) show ?thesis by blast
qed

subsection \<open>C2: the stored precedence relation never has a cycle\<close>

text \<open>
  Claim C2: after every sequence of calls the predecessor relation of the vertex table is
  acyclic (its transitive closure relates no vertex to itself), and an \<open>addEdge\<close> whose edge
  would close a cycle throws a \<open>cycle detected\<close> error and records no edge. The sequence may
  hold calls that throw and calls of \<open>each\<close>; every store between two steps of one \<open>add\<close> is
  such a store as well.
\<close>

theorem C2_acyclic:
  "acyclic (edges (build cs)) \<and>
   (v < length (verts (build cs)) \<and> w < length (verts (build cs)) \<and>
    \<not> acyclic (insert (v, w) (edges (build cs))) \<longrightarrow>
      (\<exists>ks s'. addEdge v w (build cs) = (Inl (Error (chain_msg (key (verts (build cs) ! w)) ks)), s')
         \<and> edges s' = edges (build cs)))"
proof (intro conjI impI)
  show ac: "acyclic (edges (build cs))"
    using build_ok [of cs] by (simp add: store_ok_def)
  assume h: "v < length (verts (build cs)) \<and> w < length (verts (build cs)) \<and>
    \<not> acyclic (insert (v, w) (edges (build cs)))"
  with ac have r: "(w, v) \<in> (edges (build cs))\<^sup>*"
    by (simp add: acyclic_insert)
  from h addEdge_result(1) [OF build_ok _ _ r] obtain p s'
    where a: "addEdge v w (build cs) =
      (Inl (Error (chain_msg (key (verts (build cs) ! w)) (map (\<lambda>i. key (verts (build cs) ! i)) p))), s')"
      and fr: "map unflag (verts s') = map unflag (verts (build cs))"
    by blast
  from a edges_cong [OF fr]
  show "\<exists>ks s'. addEdge v w (build cs) = (Inl (Error (chain_msg (key (verts (build cs) ! w)) ks)), s')
         \<and> edges s' = edges (build cs)"
    by blast
qed

text \<open>
  On the store with \<open>a\<close> before \<open>b\<close> before \<open>c\<close>, the edge \<open>c\<close> before \<open>a\<close> is rejected.
\<close>

theorem C2_acyclic_witness:
  "acyclic (edges store_bac) \<and>
   (\<exists>ks s'. addEdge 2 1 store_bac = (Inl (Error (chain_msg ''a'' ks)), s')
       \<and> edges s' = edges store_bac)"
proof -
  have r: "(1, 2) \<in> (edges store_bac)\<^sup>*"
    using store_bac_edges by (meson rtrancl.rtrancl_into_rtrancl r_into_rtrancl)
  have h: "2 < length (verts store_bac) \<and> 1 < length (verts store_bac) \<and>
      \<not> acyclic (insert (2, 1) (edges store_bac))"
    using r by (simp add: store_bac_verts acyclic_insert)
  have k: "key (verts store_bac ! 1) = ''a''"
    by (simp add: store_bac_verts)
  from C2_acyclic [of "[Add ''b'' (Some (2::nat)) Absent (Single ''a''), Add ''c'' None Absent (Single ''b'')]" 2 1]
    h k show ?thesis
    unfolding store_bac_def [symmetric] by simp
qed

subsection \<open>C3: what a call of \<open>add\<close> that throws leaves behind\<close>






subsection \<open>C4: the output order is a function of the calls of \<open>add\<close>\<close>

text \<open>
  Claim C4: the output of \<open>each\<close> depends on the sequence of \<open>add\<close> calls alone. Two stores
  built by call sequences with the same calls of \<open>add\<close> in the same order (whatever calls of
  \<open>each\<close> lie between them) give the same output; a second \<open>each\<close> on the same instance gives
  the same output again; and the order is the one of the recursive depth-first visit
  \<open>walk_order\<close>, which determines it: visits start at the vertices without a successor in
  the order of their insertion, and at each vertex the predecessors that are not seen yet
  are visited in the order in which they are listed.
\<close>

theorem C4_deterministic:
  assumes "filter (\<lambda>c. c \<noteq> Each) cs' = filter (\<lambda>c. c \<noteq> Each) cs"
  shows "fst (DAG_each (build cs')) = fst (DAG_each (build cs)) \<and>
         (\<exists>order s'. DAG_each (build cs) = (Inr (calls_of (build cs) order), s') \<and>
            DAG_each s' = DAG_each (build cs) \<and>
            walk_order (build cs) order \<and>
            (\<forall>order'. walk_order (build cs) order' \<longrightarrow> order' = order))"
proof -
  note ok = build_ok [of cs]
  from walk_cong [OF build_same_graph [OF assms]]
  have 1: "fst (DAG_each (build cs')) = fst (DAG_each (build cs))"
    by (simp add: DAG_each_def)
  from walk_result [OF ok] obtain order t'
    where wo: "walk_order (build cs) order"
      and r: "walk (build cs) = (Inr (calls_of (build cs) order), t')"
    by blast
  from walk_same_graph [of "build cs"] r have "same_graph t' (build cs)"
    by simp
  from walk_cong [OF this] have "DAG_each t' = DAG_each (build cs)"
    by (simp add: DAG_each_def)
  then have 2: "DAG_each t' = DAG_each (build cs)" .
  show ?thesis
  proof (intro conjI exI)
    show "fst (DAG_each (build cs')) = fst (DAG_each (build cs))" by (rule 1)
    show "DAG_each (build cs) = (Inr (calls_of (build cs) order), t')"
      using r by (simp add: DAG_each_def)
    show "DAG_each t' = DAG_each (build cs)" by (rule 2)
    show "walk_order (build cs) order" by (rule wo)
    show "\<forall>order'. walk_order (build cs) order' \<longrightarrow> order' = order"
      using walk_order_unique [OF wo] by blast
  qed
qed

text \<open>The store with \<open>a\<close> before \<open>b\<close> before \<open>c\<close>, built with and without calls of \<open>each\<close>.\<close>

theorem C4_deterministic_witness:
  "fst (DAG_each (build [Add ''b'' (Some (2::nat)) Absent (Single ''a''), Each,
       Add ''c'' None Absent (Single ''b''), Each])) = fst (DAG_each store_bac) \<and>
   fst (DAG_each store_bac) = Inr [(''a'', None), (''b'', Some 2), (''c'', None)] \<and>
   (\<exists>order. walk_order store_bac order \<and> fst (DAG_each store_bac) = Inr (calls_of store_bac order)
       \<and> DAG_each (snd (DAG_each store_bac)) = DAG_each store_bac)"
proof -
  have h: "filter (\<lambda>c. c \<noteq> Each) [Add ''b'' (Some (2::nat)) Absent (Single ''a''), Each,
       Add ''c'' None Absent (Single ''b''), Each]
     = filter (\<lambda>c. c \<noteq> Each) [Add ''b'' (Some (2::nat)) Absent (Single ''a''),
       Add ''c'' None Absent (Single ''b'')]"
    by simp
  have 1: "fst (DAG_each store_bac) = Inr [(''a'', None), (''b'', Some 2), (''c'', None)]"
    by code_simp
  from C4_deterministic [OF h, folded store_bac_def] obtain order s'
    where a: "fst (DAG_each (build [Add ''b'' (Some (2::nat)) Absent (Single ''a''), Each,
       Add ''c'' None Absent (Single ''b''), Each])) = fst (DAG_each store_bac)"
      and b: "DAG_each store_bac = (Inr (calls_of store_bac order), s')"
      and c: "DAG_each s' = DAG_each store_bac"
      and d: "walk_order store_bac order"
    by blast
  from b have s': "snd (DAG_each store_bac) = s'"
    and f: "fst (DAG_each store_bac) = Inr (calls_of store_bac order)"
    by simp_all
  show ?thesis
  proof (intro conjI exI)
    show "fst (DAG_each (build [Add ''b'' (Some (2::nat)) Absent (Single ''a''), Each,
       Add ''c'' None Absent (Single ''b''), Each])) = fst (DAG_each store_bac)"
      by (rule a)
    show "fst (DAG_each store_bac) = Inr [(''a'', None), (''b'', Some 2), (''c'', None)]"
      by (rule 1)
    show "walk_order store_bac order" by (rule d)
    show "fst (DAG_each store_bac) = Inr (calls_of store_bac order)" by (rule f)
    show "DAG_each (snd (DAG_each store_bac)) = DAG_each store_bac"
      unfolding s' by (rule c)
  qed
qed

subsection \<open>C5: \<open>walk\<close> calls the visitor once for every vertex\<close>

text \<open>
  Claim C5: on every store that the calls can build (all of them are acyclic), \<open>walk\<close>
  returns, and its calls of the visitor are the key and value of the vertices at the
  positions \<open>order\<close>, where \<open>order\<close> holds every position of the vertex table exactly once.
  No vertex is lost by starting visits only at the vertices whose \<open>out\<close> is false: every
  vertex is such a vertex or comes, along predecessor edges, before one.
\<close>

theorem C5_walk_once:
  "\<exists>order s'. walk (build cs) = (Inr (calls_of (build cs) order), s') \<and>
      distinct order \<and> set order = {..<length (verts (build cs))} \<and>
      (\<forall>i < length (verts (build cs)). \<exists>r < length (verts (build cs)).
          \<not> out (verts (build cs) ! r) \<and> (i, r) \<in> (edges (build cs))\<^sup>*)"
proof -
  note ok = build_ok [of cs]
  from walk_result [OF ok] obtain order t'
    where w: "walk_order (build cs) order" and r: "walk (build cs) = (Inr (calls_of (build cs) order), t')"
    by blast
  from walk_order_facts(1,2) [OF ok w] r reaches_root [OF ok] show ?thesis
    by blast
qed

text \<open>The store with \<open>a\<close> before \<open>b\<close> before \<open>c\<close>: three calls, one for each vertex.\<close>

theorem C5_walk_once_witness:
  "fst (walk store_bac) = Inr [(''a'', None), (''b'', Some 2), (''c'', None)] \<and>
   (\<exists>order. distinct order \<and> set order = {..<length (verts store_bac)} \<and>
      fst (walk store_bac) = Inr (calls_of store_bac order))"
proof -
  have 1: "fst (walk store_bac) = Inr [(''a'', None), (''b'', Some 2), (''c'', None)]"
    by code_simp
  from C5_walk_once [of "[Add ''b'' (Some (2::nat)) Absent (Single ''a''),
      Add ''c'' None Absent (Single ''b'')]"]
  have "\<exists>order. distinct order \<and> set order = {..<length (verts store_bac)} \<and>
      fst (walk store_bac) = Inr (calls_of store_bac order)"
    unfolding store_bac_def [symmetric] by force
  with 1 show ?thesis by blast
qed

subsection \<open>C6: when \<open>addEdge\<close> throws, and what the error lists\<close>

text \<open>
  Claim C6: \<open>addEdge(v, w)\<close>, which asks for \<open>v\<close> before \<open>w\<close>, throws if and only if the key of
  the successor \<open>w\<close> is the key of the predecessor \<open>v\<close> or \<open>w\<close> is reached from \<open>v\<close> along
  predecessor edges already in the store. The error is \<open>cycle detected:\<close> followed by the
  key of \<open>w\<close> and then, each after \<open><-\<close>, the keys of the path that the search found: it
  starts at \<open>v\<close>, each vertex on it is a listed predecessor of the one before, and it ends
  at \<open>w\<close> (for a self-loop it is \<open>v\<close> alone).
\<close>

theorem C6_cycle_error:
  assumes "v < length (verts (build cs))" and "w < length (verts (build cs))"
  shows "((\<exists>e s'. addEdge v w (build cs) = (Inl e, s')) \<longleftrightarrow>
            key (verts (build cs) ! w) = key (verts (build cs) ! v) \<or> (w, v) \<in> (edges (build cs))\<^sup>+)
         \<and> (\<forall>e s'. addEdge v w (build cs) = (Inl e, s') \<longrightarrow>
              (\<exists>p. cycle_path (build cs) v w p \<and>
                 e = Error (chain_msg (key (verts (build cs) ! w))
                       (map (\<lambda>i. key (verts (build cs) ! i)) p))))"
proof -
  let ?s = "build cs"
  note ok = build_ok [of cs]
  have eq: "(key (verts ?s ! w) = key (verts ?s ! v) \<or> (w, v) \<in> (edges ?s)\<^sup>+)
      \<longleftrightarrow> (w, v) \<in> (edges ?s)\<^sup>*"
    using store_ok_key_inj [OF ok assms(2,1)] by (auto simp: rtrancl_eq_or_trancl)
  show ?thesis
  proof (cases "(w, v) \<in> (edges ?s)\<^sup>*")
    case True
    from addEdge_result(1) [OF ok assms True] eq True show ?thesis
      by auto
  next
    case False
    from addEdge_result(2) [OF ok assms False] eq False show ?thesis
      by auto
  qed
qed

text \<open>The edge \<open>c\<close> before \<open>a\<close> on the store with \<open>a\<close> before \<open>b\<close> before \<open>c\<close>.\<close>

theorem C6_cycle_error_witness:
  "(\<exists>e s'. addEdge 2 1 store_bac = (Inl e, s'))
   \<and> fst (addEdge 2 1 store_bac) = Inl (Error ''cycle detected: a <- c <- b <- a'')
   \<and> (1, 2) \<in> (edges store_bac)\<^sup>+"
proof -
  have r: "(1, 2) \<in> (edges store_bac)\<^sup>+"
    using store_bac_edges by (meson trancl.trancl_into_trancl r_into_trancl')
  have h: "2 < length (verts store_bac)" "1 < length (verts store_bac)"
    by (simp_all add: store_bac_verts)
  have m: "fst (addEdge 2 1 store_bac) = Inl (Error ''cycle detected: a <- c <- b <- a'')"
    by code_simp
  from C6_cycle_error [of 2 "[Add ''b'' (Some (2::nat)) Absent (Single ''a''), Add ''c'' None Absent (Single ''b'')]" 1]
    h r m show ?thesis
    unfolding store_bac_def [symmetric] by blast
qed

subsection \<open>C7: adding a key again\<close>

text \<open>
  Claim C7: when the key \<open>k\<close> is in the store, at position \<open>i\<close>, a further call
  \<open>add(k, v, before, after)\<close>, whether it returns or throws, leaves \<open>k\<close> at position \<open>i\<close> with
  the same \<open>idx\<close>; the predecessors that \<open>k\<close> had are still listed first and in the same
  order; the value of \<open>k\<close> is \<open>v\<close>; every other vertex keeps its \<open>idx\<close>, key, value and the
  predecessors it had (\<open>keeps\<close>); without constraints nothing but that value changes; and
  a following \<open>each\<close> calls the visitor for \<open>k\<close> exactly once, with the value \<open>v\<close>.
\<close>

theorem C7_readd:
  assumes "lookup k (verts (build cs)) = Some i" and "DAG_add k v b a (build cs) = (r, s')"
  shows "lookup k (verts s') = Some i \<and> idx (verts s' ! i) = idx (verts (build cs) ! i) \<and>
         prefix (incoming (verts (build cs) ! i)) (incoming (verts s' ! i)) \<and>
         val (verts s' ! i) = v \<and> keeps {k} (build cs) s' \<and>
         (b = Absent \<and> a = Absent \<longrightarrow>
            r = Inr () \<and>
            s' = (build cs)\<lparr>verts := (verts (build cs))[i := (verts (build cs) ! i)\<lparr>val := v\<rparr>]\<rparr>) \<and>
         (\<exists>calls u. DAG_each s' = (Inr calls, u) \<and> (k, v) \<in> set calls \<and>
            length (filter (\<lambda>c. fst c = k) calls) = 1)"
proof -
  note ok = build_ok [of cs]
  note f = readd [OF ok assms]
  from lookup_Some [OF assms(1)] have i: "i < length (verts (build cs))"
    and k: "key (verts (build cs) ! i) = k"
    by simp_all
  from store_ok_key [OF ok i] k have ne: "k \<noteq> []" and ix: "idx (verts (build cs) ! i) = i"
    by auto
  have plain: "r = Inr () \<and>
      s' = (build cs)\<lparr>verts := (verts (build cs))[i := (verts (build cs) ! i)\<lparr>val := v\<rparr>]\<rparr>"
    if "b = Absent \<and> a = Absent"
    using that assms ne by (simp add: DAG_add_def Vertices_add_def constraints_simps)
  from each_contains [OF f(6) f(1)] f(3)
  have e: "\<exists>calls u. DAG_each s' = (Inr calls, u) \<and> (k, v) \<in> set calls \<and>
            length (filter (\<lambda>c. fst c = k) calls) = 1"
    by simp
  from f ix plain e show ?thesis by simp
qed

text \<open>
  On the store with \<open>a\<close> before \<open>b\<close> before \<open>c\<close>, the call \<open>add("b", 7, "c")\<close>: the key \<open>b\<close> stays at
  position 0 and keeps its predecessor \<open>a\<close>.
\<close>

theorem C7_readd_witness:
  "lookup ''b'' (verts store_bac) = Some 0 \<and>
   incoming (verts store_bac ! 0) = [1] \<and>
   lookup ''b'' (verts (snd (DAG_add ''b'' (Some 7) (Single ''c'') Absent store_bac))) = Some 0 \<and>
   prefix [1] (incoming (verts (snd (DAG_add ''b'' (Some 7) (Single ''c'') Absent store_bac)) ! 0)) \<and>
   val (verts (snd (DAG_add ''b'' (Some 7) (Single ''c'') Absent store_bac)) ! 0) = Some 7 \<and>
   (\<exists>calls u. DAG_each (snd (DAG_add ''b'' (Some 7) (Single ''c'') Absent store_bac)) = (Inr calls, u)
      \<and> (''b'', Some 7) \<in> set calls \<and> length (filter (\<lambda>c. fst c = ''b'') calls) = 1)"
proof -
  have h1: "lookup ''b'' (verts store_bac) = Some 0"
    by (simp add: store_bac_verts)
  have h2: "DAG_add ''b'' (Some 7) (Single ''c'') Absent store_bac =
      (fst (DAG_add ''b'' (Some 7) (Single ''c'') Absent store_bac),
       snd (DAG_add ''b'' (Some 7) (Single ''c'') Absent store_bac))"
    by simp
  have n: "incoming (verts store_bac ! 0) = [1]"
    by (simp add: store_bac_verts)
  from C7_readd [of "''b''" "[Add ''b'' (Some (2::nat)) Absent (Single ''a''),
      Add ''c'' None Absent (Single ''b'')]" 0, folded store_bac_def, OF h1 h2] h1 n
  show ?thesis by simp
qed

subsection \<open>C8: forward references\<close>

text \<open>
  Claim C8: let the key \<open>t\<close> be absent from the store and let a call of \<open>add\<close> for another
  key name \<open>t\<close> among its \<open>before\<close> or \<open>after\<close> targets. If the call returns, \<open>t\<close> has a vertex
  afterwards. Whenever \<open>t\<close> has a vertex after the call (also when the call throws at a
  later target), that vertex is new, its \<open>idx\<close> is its position \<open>j\<close>, and its value is
  \<open>undefined\<close>. As long as no later call adds \<open>t\<close> explicitly, \<open>t\<close> stays at \<open>j\<close> with the value
  \<open>undefined\<close>, and \<open>each\<close> calls the visitor for \<open>t\<close> exactly once, with \<open>undefined\<close>. A later
  explicit \<open>add(t, v2, ...)\<close> leaves \<open>t\<close> at \<open>j\<close>, sets its value to \<open>v2\<close> and keeps the
  predecessors that \<open>t\<close> had, listed first.
\<close>

theorem C8_forward_reference:
  assumes unseen: "lookup t (verts (build cs)) = None" and tk: "t \<noteq> k"
    and call: "DAG_add k v b a (build cs) = (r, s')"
    and never: "\<forall>c \<in> set cs'. \<not> adds_key t c"
    and later: "DAG_add t v2 b2 a2 (run cs' s') = (r2, s'')"
  shows "(r = Inr () \<and> t \<in> targets b \<union> targets a \<longrightarrow> lookup t (verts s') \<noteq> None) \<and>
         (\<forall>j. lookup t (verts s') = Some j \<longrightarrow>
           length (verts (build cs)) \<le> j \<and>
           idx (verts s' ! j) = j \<and> val (verts s' ! j) = None \<and>
           lookup t (verts (run cs' s')) = Some j \<and> idx (verts (run cs' s') ! j) = j \<and>
           val (verts (run cs' s') ! j) = None \<and>
           (\<exists>calls u. DAG_each (run cs' s') = (Inr calls, u) \<and> (t, None) \<in> set calls \<and>
              length (filter (\<lambda>c. fst c = t) calls) = 1) \<and>
           lookup t (verts s'') = Some j \<and> idx (verts s'' ! j) = j \<and> val (verts s'' ! j) = v2 \<and>
           prefix (incoming (verts (run cs' s') ! j)) (incoming (verts s'' ! j)))"
proof (intro conjI allI impI)
  assume h: "r = Inr () \<and> t \<in> targets b \<union> targets a"
  with call have ret: "DAG_add k v b a (build cs) = (Inr (), s')" and named: "t \<in> targets b \<union> targets a"
    by simp_all
  from DAG_add_processed [OF ret named] obtain i sa sb
    where li: "lookup k (verts (assigned k v (build cs))) = Some i"
      and g1: "grows (assigned k v (build cs)) sa"
      and e: "edge_before i t sa = (Inr (), sb) \<or> edge_after i t sa = (Inr (), sb)"
      and g2: "grows sb s'"
    by blast
  from lookup_Some [OF li] g1 have ia: "i < length (verts sa)"
    by (simp add: grows_def)
  from edge_target(2) [OF e ia] obtain w where "lookup t (verts sb) = Some w"
    by blast
  from lookup_keeps [OF grows_keeps [OF g2] this] show "lookup t (verts s') \<noteq> None"
    by simp
next
  fix j assume l': "lookup t (verts s') = Some j"
  let ?s = "build cs"
  let ?s2 = "run cs' s'"
  note ok = build_ok [of cs]
  have k: "k \<noteq> []"
  proof
    assume "k = []"
    with call have "s' = ?s" by (simp add: DAG_add_def)
    with l' unseen show False by simp
  qed
  from lookup_Some [OF l'] have w': "j < length (verts s')" and kw': "key (verts s' ! j) = t"
    by simp_all
  from assigned_no_key [OF unseen tk] have "placeholder t (assigned k v ?s)"
    by (simp add: placeholder_def)
  from placeholder_DAG_add [OF k this call] w' kw' have v': "val (verts s' ! j) = None"
    by (simp add: placeholder_def)
  from DAG_add_ok [OF ok call] have ok': "store_ok s'" .
  from store_ok_key [OF ok' w'] have ix': "idx (verts s' ! j) = j" by simp
  have new: "length (verts ?s) \<le> j"
  proof (rule ccontr)
    assume "\<not> length (verts ?s) \<le> j"
    then have ws: "j < length (verts ?s)" by simp
    with DAG_add_keeps [OF call] kw' have "key (verts ?s ! j) = t"
      by (simp add: keeps_def)
    with ws have "t \<in> key ` set (verts ?s)"
      by (metis imageI nth_mem)
    with unseen show False
      by (simp add: lookup_None)
  qed
  from run_ok [OF ok'] have ok2: "store_ok ?s2" .
  from run_keeps [OF never] have kp: "keeps {k. k \<noteq> t} s' ?s2" .
  from lookup_keeps [OF kp l'] have l2: "lookup t (verts ?s2) = Some j" .
  from lookup_Some [OF l2] store_ok_key [OF ok2] have ix2: "idx (verts ?s2 ! j) = j"
    by simp
  from kp w' kw' v' have v2: "val (verts ?s2 ! j) = None"
    by (simp add: keeps_def)
  from each_contains [OF ok2 l2] v2
  have ec: "\<exists>calls u. DAG_each ?s2 = (Inr calls, u) \<and> (t, None) \<in> set calls \<and>
              length (filter (\<lambda>c. fst c = t) calls) = 1"
    by simp
  note ra = readd [OF ok2 l2 later]
  show "length (verts ?s) \<le> j" by (rule new)
  show "idx (verts s' ! j) = j" by (rule ix')
  show "val (verts s' ! j) = None" by (rule v')
  show "lookup t (verts ?s2) = Some j" by (rule l2)
  show "idx (verts ?s2 ! j) = j" by (rule ix2)
  show "val (verts ?s2 ! j) = None" by (rule v2)
  show "\<exists>calls u. DAG_each ?s2 = (Inr calls, u) \<and> (t, None) \<in> set calls \<and>
              length (filter (\<lambda>c. fst c = t) calls) = 1" by (rule ec)
  show "lookup t (verts s'') = Some j" by (rule ra(1))
  show "idx (verts s'' ! j) = j" by (rule ra(2))
  show "val (verts s'' ! j) = v2" by (rule ra(3))
  show "prefix (incoming (verts ?s2 ! j)) (incoming (verts s'' ! j))" by (rule ra(4))
qed

text \<open>
  On the empty store, \<open>add("b", 2, undefined, "a")\<close> creates the placeholder \<open>a\<close> at position
  1; after \<open>add("c", undefined, undefined, "b")\<close> it is still there, and \<open>add("a", 1)\<close> fills
  in its value.
\<close>

theorem C8_forward_reference_witness:
  "lookup ''a'' (verts (build ([] :: nat call list))) = None \<and>
   lookup ''a'' (verts (snd (DAG_add ''b'' (Some (2::nat)) Absent (Single ''a'') (build [])))) = Some 1 \<and>
   val (verts (snd (DAG_add ''b'' (Some (2::nat)) Absent (Single ''a'') (build []))) ! 1) = None \<and>
   lookup ''a'' (verts store_bac) = Some 1 \<and> val (verts store_bac ! 1) = None \<and>
   (\<exists>calls u. DAG_each store_bac = (Inr calls, u) \<and> (''a'', None) \<in> set calls \<and>
      length (filter (\<lambda>c. fst c = ''a'') calls) = 1) \<and>
   lookup ''a'' (verts (snd (DAG_add ''a'' (Some 1) Absent Absent store_bac))) = Some 1 \<and>
   val (verts (snd (DAG_add ''a'' (Some 1) Absent Absent store_bac)) ! 1) = Some 1"
proof -
  let ?s' = "snd (DAG_add ''b'' (Some (2::nat)) Absent (Single ''a'') (build []))"
  let ?cs' = "[Add ''c'' None Absent (Single ''b'')] :: nat call list"
  have h1: "lookup ''a'' (verts (build ([] :: nat call list))) = None"
    by (simp add: build_def new_Vertices_def)
  have h2: "''a'' \<noteq> ''b''"
    by simp
  have r: "fst (DAG_add ''b'' (Some (2::nat)) Absent (Single ''a'') (build [])) = Inr ()"
    by code_simp
  then have h3: "DAG_add ''b'' (Some (2::nat)) Absent (Single ''a'') (build []) = (Inr (), ?s')"
    by (metis prod.collapse)
  have h4: "\<forall>c \<in> set ?cs'. \<not> adds_key ''a'' c"
    by simp
  have run: "run ?cs' ?s' = store_bac"
    by (simp add: store_bac_def build_def)
  have h5: "DAG_add ''a'' (Some 1) Absent Absent (run ?cs' ?s') =
      (fst (DAG_add ''a'' (Some 1) Absent Absent store_bac),
       snd (DAG_add ''a'' (Some 1) Absent Absent store_bac))"
    unfolding run by simp
  have l: "lookup ''a'' (verts store_bac) = Some 1"
    by (simp add: store_bac_verts)
  note c8 = C8_forward_reference [OF h1 h2 h3 h4 h5, unfolded run]
  from c8 have "lookup ''a'' (verts ?s') \<noteq> None"
    by simp
  then obtain j where lj: "lookup ''a'' (verts ?s') = Some j"
    by blast
  from c8 lj have 2: "lookup ''a'' (verts store_bac) = Some j"
    by blast
  with l have j: "j = 1" by simp
  from c8 lj [unfolded j] h1 show ?thesis
    by blast
qed

subsection \<open>C9: \<open>add\<close> without a value erases the stored value\<close>

text \<open>
  Claim C9: for every key \<open>k\<close> that is in the store, \<open>add(k)\<close> with the value left out
  overwrites the value of \<open>k\<close> with \<open>undefined\<close>; \<open>add\<close> assigns its second argument on every
  call. With no constraints the call returns and changes nothing else.
\<close>

theorem C9_add_without_value:
  assumes "k \<noteq> []" and "lookup k (verts s) = Some i"
  shows "DAG_add k v Absent Absent s =
           (Inr (), s\<lparr>verts := (verts s)[i := (verts s ! i)\<lparr>val := v\<rparr>]\<rparr>)
         \<and> val (verts (snd (DAG_add k None Absent Absent s)) ! i) = None"
  using assms lookup_Some [OF assms(2)]
  by (simp add: DAG_add_def Vertices_add_def constraints_simps)

text \<open>The store that holds \<open>a\<close> with the value 1 loses that value by \<open>add("a")\<close>.\<close>

theorem C9_add_without_value_witness:
  "val (verts store_a ! 0) = Some 1
   \<and> val (verts (snd (DAG_add ''a'' None Absent Absent store_a)) ! 0) = None"
proof -
  have h1: "''a'' \<noteq> []" by simp
  have h2: "lookup ''a'' (verts store_a) = Some 0" by code_simp
  have h3: "val (verts store_a ! 0) = Some 1" by code_simp
  from C9_add_without_value [OF h1 h2, of None] h3 show ?thesis by blast
qed

subsection \<open>C10: the empty string as a constraint target\<close>

text \<open>
  Claim C10 says that the empty string passed as \<open>before\<close> or \<open>after\<close> is taken as no
  constraint, while the empty string as an element of a \<open>before\<close> or \<open>after\<close> array makes
  every such call throw the error of the internal key resolver. The first half holds. The
  second half holds in this form (C10, amended): a call whose array holds an empty string
  always throws; with a key that is not empty, the call behaves as the same call with the
  array cut before the first empty string (and, for a \<open>before\<close> array, without \<open>after\<close>), and
  if that shorter call returns, the error is \<open>missing key\<close> of \<open>Vertices.add\<close>, thrown with the
  store as the shorter call left it. An earlier error of the same call comes first.
\<close>

theorem C10_empty_target:
  "DAG_add k v (Single []) a s = DAG_add k v Absent a s
   \<and> DAG_add k v b (Single []) s = DAG_add k v b Absent s
   \<and> (k \<noteq> [] \<longrightarrow>
        DAG_add k v (Many (pre @ [] # post)) a s =
          (case DAG_add k v (Many pre) Absent s of
             (Inl e, s1) \<Rightarrow> (Inl e, s1)
           | (Inr _, s1) \<Rightarrow> (Inl (Error ''missing key''), s1)))
   \<and> (k \<noteq> [] \<longrightarrow>
        DAG_add k v b (Many (pre @ [] # post)) s =
          (case DAG_add k v b (Many pre) s of
             (Inl e, s1) \<Rightarrow> (Inl e, s1)
           | (Inr _, s1) \<Rightarrow> (Inl (Error ''missing key''), s1)))
   \<and> ([] \<in> set bs \<longrightarrow> (\<exists>e s1. DAG_add k v (Many bs) a s = (Inl e, s1)))
   \<and> ([] \<in> set bs \<longrightarrow> (\<exists>e s1. DAG_add k v b (Many bs) s = (Inl e, s1)))"
proof -
  have 1: "DAG_add k v (Single []) a s = DAG_add k v Absent a s"
    by (auto simp: DAG_add_def constraints_simps Let_def split: prod.splits sum.splits)
  have 2: "DAG_add k v b (Single []) s = DAG_add k v b Absent s"
    by (auto simp: DAG_add_def constraints_simps Let_def split: prod.splits sum.splits)
  have 3: "DAG_add k v (Many (pre @ [] # post)) a s =
          (case DAG_add k v (Many pre) Absent s of
             (Inl e, s1) \<Rightarrow> (Inl e, s1)
           | (Inr _, s1) \<Rightarrow> (Inl (Error ''missing key''), s1))" if "k \<noteq> []" for pre post
    using that
    by (auto simp: DAG_add_def constraints_simps Let_def
        edges_loop_empty_target
        split: prod.splits sum.splits)
  have 4: "DAG_add k v b (Many (pre @ [] # post)) s =
          (case DAG_add k v b (Many pre) s of
             (Inl e, s1) \<Rightarrow> (Inl e, s1)
           | (Inr _, s1) \<Rightarrow> (Inl (Error ''missing key''), s1))" if "k \<noteq> []" for pre post
    using that
    by (auto simp: DAG_add_def constraints_simps Let_def
        edges_loop_empty_target
        split: prod.splits sum.splits)
  have 5: "\<exists>e s1. DAG_add k v (Many bs) a s = (Inl e, s1)" if "[] \<in> set bs"
  proof (cases "k = []")
    case True
    then show ?thesis by (simp add: DAG_add_def)
  next
    case False
    from that obtain pre post where "bs = pre @ [] # post"
      by (meson split_list)
    with 3 [OF False, of pre post] show ?thesis
      by (auto split: prod.splits sum.splits)
  qed
  have 6: "\<exists>e s1. DAG_add k v b (Many bs) s = (Inl e, s1)" if "[] \<in> set bs"
  proof (cases "k = []")
    case True
    then show ?thesis by (simp add: DAG_add_def)
  next
    case False
    from that obtain pre post where "bs = pre @ [] # post"
      by (meson split_list)
    with 4 [OF False, of pre post] show ?thesis
      by (auto split: prod.splits sum.splits)
  qed
  from 1 2 3 4 5 6 show ?thesis by blast
qed

text \<open>The amended claim on the store that holds \<open>a\<close>.\<close>

theorem C10_empty_target_witness:
  "DAG_add ''b'' (Some 2) (Many [''a'', [], ''c'']) Absent store_a =
     (Inl (Error ''missing key''), snd (DAG_add ''b'' (Some 2) (Many [''a'']) Absent store_a))
   \<and> DAG_add ''b'' (Some 2) (Single []) Absent store_a
       = DAG_add ''b'' (Some 2) Absent Absent store_a"
proof -
  have h1: "''b'' \<noteq> []" by simp
  have h2: "fst (DAG_add ''b'' (Some 2) (Many [''a'']) Absent store_a) = Inr ()"
    by code_simp
  from C10_empty_target [of "''b''" "Some 2" Absent store_a Absent "[''a'']" "[''c'']" "[]"]
    h1 h2 show ?thesis
    by (auto split: prod.splits sum.splits)
qed

text \<open>
  The claim as stated fails: \<open>add("a", 1, ["a", ""])\<close> on the empty store throws the
  self-loop error of \<open>check\<close> at the first element, not the error of the key resolver.
\<close>

theorem C10_empty_target_counterexample:
  "fst (DAG_add ''a'' (Some (1::nat)) (Many [''a'', []]) Absent new_Vertices)
     = Inl (Error ''cycle detected: a <- a'')"
  by code_simp

end
